theory Spec2Isabelle
  imports Complex_Main "HOL-Library.AList" "HOL-Library.Sublist"
begin

section \<open>Data model\<close>

text \<open>
  The attribution pipeline of \<^verbatim>\<open>attribution_processing.py\<close> and
  \<^verbatim>\<open>pipeline_runner.py\<close>. Python dictionaries keep insertion order, so a
  dictionary is an association list with distinct keys: \<open>map_of d k\<close> reads a key and
  \<open>AList.update k v d\<close> writes one (in place when the key exists, at the end otherwise).
  Python floats are idealised as exact rationals. A timestamp text
  \<^verbatim>\<open>'%Y-%m-%d %H:%M:%S'\<close> is represented by the whole second it names (seconds since the
  epoch), which is what \<^verbatim>\<open>datetime.strptime\<close> recovers from it. A key that a
  \<^verbatim>\<open>.get\<close> of the source reads with a default is a field holding that default when the
  key is absent.
\<close>

datatype error =
    ZeroDivisionError
  | KeyError
  | ValueError
  | ConnectionError
  | Timeout
  | HTTPError nat
  | JSONDecodeError

text \<open>The session dictionary of a journey (\<^verbatim>\<open>session_dict\<close>).\<close>

record session =
  session_id :: string
  timestamp :: int
  channel :: string
  holder_engagement :: bool
  closer_engagement :: bool
  impression_interaction :: bool
  cost :: rat

text \<open>The conversion dictionary of a journey (\<^verbatim>\<open>conversion_dict\<close>).\<close>

record conversion =
  conv_id :: string
  conv_timestamp :: int
  revenue :: rat

text \<open>One entry of \<^verbatim>\<open>journey_payload['users']\<close>.\<close>

record journey =
  sessions :: "session list"
  conversions :: "conversion list"

type_synonym journey_payload = "(string \<times> journey) list"

text \<open>The attribution table \<^verbatim>\<open>conv_id -> session_id -> weight\<close>.\<close>

type_synonym weights = "(string \<times> rat) list"
type_synonym attribution = "(string \<times> weights) list"

section \<open>The heuristic engine: \<^verbatim>\<open>call_ihc_api_test\<close>\<close>

text \<open>Python's \<^verbatim>\<open>sub in s\<close> on strings.\<close>

fun contains :: "string \<Rightarrow> string \<Rightarrow> bool" where
  "contains sub [] = (sub = [])"
| "contains sub (c # cs) = (prefix sub (c # cs) \<or> contains sub cs)"

text \<open>Python's true division, which raises on a zero divisor.\<close>

definition truediv :: "rat \<Rightarrow> rat \<Rightarrow> error + rat" where
  "truediv a b = (if b = 0 then Inl ZeroDivisionError else Inr (a / b))"

text \<open>The \<^verbatim>\<open>if/elif\<close> chain on the channel label (lines 117-125).\<close>

definition channel_weight :: "string \<Rightarrow> rat" where
  "channel_weight ch =
     (if contains ''Email'' ch then 12 / 10
      else if contains ''Social'' ch then 11 / 10
      else if contains ''Search'' ch then 13 / 10
      else if contains ''Direct'' ch then 8 / 10
      else 1)"

text \<open>Lines 127-131.\<close>

definition engagement_weight :: "session \<Rightarrow> rat" where
  "engagement_weight s =
     (let w0 = 1;
          w1 = (if holder_engagement s then w0 + 5 / 10 else w0);
          w2 = (if closer_engagement s then w1 + 7 / 10 else w1)
      in w2)"

text \<open>The loop of lines 103-106 that collects the sessions before the conversion.\<close>

fun eligible_sessions :: "session list \<Rightarrow> int \<Rightarrow> session list" where
  "eligible_sessions [] conv_ts = []"
| "eligible_sessions (s # rest) conv_ts =
     (if timestamp s < conv_ts then s # eligible_sessions rest conv_ts
      else eligible_sessions rest conv_ts)"

text \<open>
  The raw weight of the session at index \<open>i\<close> of \<^verbatim>\<open>enumerate(eligible_sessions)\<close>
  (lines 114-133).
\<close>

definition raw_weight :: "nat \<Rightarrow> nat \<Rightarrow> session \<Rightarrow> error + rat" where
  "raw_weight i total_sessions s =
     (case truediv (of_nat (i + 1)) (of_nat total_sessions) of
        Inl e \<Rightarrow> Inl e
      | Inr recency_weight \<Rightarrow>
          Inr (recency_weight * channel_weight (channel s) * engagement_weight s))"

text \<open>
  The loop of lines 113-134: \<open>i\<close> is the index of the head of the remaining list, \<open>d\<close> is
  \<^verbatim>\<open>attribution_results[conv_id]\<close>.
\<close>

fun score_sessions :: "nat \<Rightarrow> nat \<Rightarrow> session list \<Rightarrow> weights \<Rightarrow> error + weights" where
  "score_sessions i total_sessions [] d = Inr d"
| "score_sessions i total_sessions (s # rest) d =
     (case raw_weight i total_sessions s of
        Inl e \<Rightarrow> Inl e
      | Inr w \<Rightarrow>
          score_sessions (i + 1) total_sessions rest (AList.update (session_id s) w d))"

text \<open>
  The loop of lines 138-139 over the keys of \<^verbatim>\<open>attribution_results[conv_id]\<close>, dividing
  each value in place.
\<close>

fun normalize :: "string list \<Rightarrow> rat \<Rightarrow> weights \<Rightarrow> error + weights" where
  "normalize [] total_weight d = Inr d"
| "normalize (k # ks) total_weight d =
     (case map_of d k of
        None \<Rightarrow> Inl KeyError
      | Some v \<Rightarrow>
          (case truediv v total_weight of
             Inl e \<Rightarrow> Inl e
           | Inr v' \<Rightarrow> normalize ks total_weight (AList.update k v' d)))"

text \<open>The body of the loop over a user's conversions (lines 96-139).\<close>

definition process_conversion :: "session list \<Rightarrow> attribution \<Rightarrow> conversion \<Rightarrow> error + attribution" where
  "process_conversion sess attribution_results c =
     (let results1 = (if map_of attribution_results (conv_id c) = None
                      then AList.update (conv_id c) [] attribution_results
                      else attribution_results);
          eligible = eligible_sessions sess (conv_timestamp c)
      in if eligible = [] then Inr results1
         else
           (case map_of results1 (conv_id c) of
              None \<Rightarrow> Inl KeyError
            | Some d0 \<Rightarrow>
                (case score_sessions 0 (length eligible) eligible d0 of
                   Inl e \<Rightarrow> Inl e
                 | Inr d1 \<Rightarrow>
                     (case normalize (map fst d1) (sum_list (map snd d1)) d1 of
                        Inl e \<Rightarrow> Inl e
                      | Inr d2 \<Rightarrow> Inr (AList.update (conv_id c) d2 results1)))))"

fun process_conversions :: "session list \<Rightarrow> conversion list \<Rightarrow> attribution \<Rightarrow> error + attribution" where
  "process_conversions sess [] attribution_results = Inr attribution_results"
| "process_conversions sess (c # cs) attribution_results =
     (case process_conversion sess attribution_results c of
        Inl e \<Rightarrow> Inl e
      | Inr results' \<Rightarrow> process_conversions sess cs results')"

text \<open>The body of the loop over users (lines 89-139).\<close>

definition process_user :: "journey \<Rightarrow> attribution \<Rightarrow> error + attribution" where
  "process_user user_data attribution_results =
     (if sessions user_data = [] \<or> conversions user_data = [] then Inr attribution_results
      else process_conversions (sessions user_data) (conversions user_data) attribution_results)"

fun process_users :: "journey_payload \<Rightarrow> attribution \<Rightarrow> error + attribution" where
  "process_users [] attribution_results = Inr attribution_results"
| "process_users ((user_id, user_data) # rest) attribution_results =
     (case process_user user_data attribution_results of
        Inl e \<Rightarrow> Inl e
      | Inr results' \<Rightarrow> process_users rest results')"

definition call_ihc_api_test :: "journey_payload \<Rightarrow> error + attribution" where
  "call_ihc_api_test journey_payload = process_users journey_payload []"

section \<open>Persisting the table: \<^verbatim>\<open>save_attribution_results\<close>\<close>

text \<open>
  A row \<^verbatim>\<open>(conv_id, session_id, ihc)\<close> of the table \<^verbatim>\<open>attribution_customer_journey\<close>;
  the store is the list of its rows.
\<close>

type_synonym attribution_row = "string \<times> string \<times> rat"

text \<open>The inner and the outer loop of lines 180-182 of \<^verbatim>\<open>database_operations.py\<close>.\<close>

fun session_rows :: "string \<Rightarrow> weights \<Rightarrow> attribution_row list" where
  "session_rows cid [] = []"
| "session_rows cid ((sid, ihc_value) # rest) = (cid, sid, ihc_value) # session_rows cid rest"

fun attribution_rows :: "attribution \<Rightarrow> attribution_row list" where
  "attribution_rows [] = []"
| "attribution_rows ((cid, d) # rest) = session_rows cid d @ attribution_rows rest"

text \<open>
  All prior rows are deleted and the new ones inserted; the result is the new store and the
  number of records saved.
\<close>

definition save_attribution_results ::
    "attribution \<Rightarrow> attribution_row list \<Rightarrow> attribution_row list \<times> nat" where
  "save_attribution_results attribution_results db =
     (let rows = attribution_rows attribution_results in (rows, length rows))"

section \<open>The batch orchestrator: \<^verbatim>\<open>call_ihc_api_batched\<close>\<close>

subsection \<open>Flattening\<close>

text \<open>A flattened journey record, the unit sent to the scoring service.\<close>

record flat_journey =
  fj_conversion_id :: string
  fj_session_id :: string
  fj_timestamp :: int
  fj_channel_label :: string
  fj_holder_engagement :: nat
  fj_closer_engagement :: nat
  fj_conversion :: nat
  fj_impression_interaction :: nat

text \<open>The record of an eligible session (lines 172-180).\<close>

definition flattened_journey :: "conversion \<Rightarrow> session \<Rightarrow> flat_journey" where
  "flattened_journey c s =
     \<lparr>fj_conversion_id = conv_id c,
      fj_session_id = session_id s,
      fj_timestamp = timestamp s,
      fj_channel_label = channel s,
      fj_holder_engagement = (if holder_engagement s then 1 else 0),
      fj_closer_engagement = (if closer_engagement s then 1 else 0),
      fj_conversion = 0,
      fj_impression_interaction = (if impression_interaction s then 1 else 0)\<rparr>"

text \<open>The record of the conversion itself (lines 184-192).\<close>

definition conversion_session :: "conversion \<Rightarrow> flat_journey" where
  "conversion_session c =
     \<lparr>fj_conversion_id = conv_id c,
      fj_session_id = ''conversion_'' @ conv_id c,
      fj_timestamp = conv_timestamp c,
      fj_channel_label = ''Conversion'',
      fj_holder_engagement = 0,
      fj_closer_engagement = 0,
      fj_conversion = 1,
      fj_impression_interaction = 0\<rparr>"

text \<open>
  The loops of lines 168-181, 164-193 and 157-193; each returns the records it appends to
  \<^verbatim>\<open>flattened_journeys\<close>, in order.
\<close>

fun flatten_sessions :: "session list \<Rightarrow> conversion \<Rightarrow> flat_journey list" where
  "flatten_sessions [] c = []"
| "flatten_sessions (s # rest) c =
     (if timestamp s < conv_timestamp c then flattened_journey c s # flatten_sessions rest c
      else flatten_sessions rest c)"

fun flatten_conversions :: "session list \<Rightarrow> conversion list \<Rightarrow> flat_journey list" where
  "flatten_conversions sess [] = []"
| "flatten_conversions sess (c # rest) =
     flatten_sessions sess c @ [conversion_session c] @ flatten_conversions sess rest"

fun flatten_users :: "journey_payload \<Rightarrow> flat_journey list" where
  "flatten_users [] = []"
| "flatten_users ((user_id, user_data) # rest) =
     (if sessions user_data = [] \<or> conversions user_data = [] then flatten_users rest
      else flatten_conversions (sessions user_data) (conversions user_data) @ flatten_users rest)"

subsection \<open>Grouping and batching\<close>

text \<open>
  The read \<^verbatim>\<open>journeys_by_conversion[conv_id]\<close>; the key is present wherever the source
  reads it.
\<close>

definition journeys_for :: "(string \<times> flat_journey list) list \<Rightarrow> string \<Rightarrow> flat_journey list" where
  "journeys_for d cid = (case map_of d cid of None \<Rightarrow> [] | Some js \<Rightarrow> js)"

text \<open>The grouping loop of lines 198-203; \<open>d\<close> is \<^verbatim>\<open>journeys_by_conversion\<close>.\<close>

fun group_by_conversion ::
    "flat_journey list \<Rightarrow> (string \<times> flat_journey list) list \<Rightarrow> (string \<times> flat_journey list) list" where
  "group_by_conversion [] d = d"
| "group_by_conversion (journey # rest) d =
     (let d1 = (if map_of d (fj_conversion_id journey) = None
                then AList.update (fj_conversion_id journey) [] d else d);
          js = journeys_for d1 (fj_conversion_id journey)
      in group_by_conversion rest (AList.update (fj_conversion_id journey) (js @ [journey]) d1))"

text \<open>Python's \<^verbatim>\<open>range(i, total_conversions, batch_size)\<close> for a positive step.\<close>

function batch_starts :: "nat \<Rightarrow> nat \<Rightarrow> nat \<Rightarrow> nat list" where
  "batch_starts i total_conversions batch_size =
     (if batch_size = 0 \<or> total_conversions \<le> i then []
      else i # batch_starts (i + batch_size) total_conversions batch_size)"
  by pat_completeness auto
termination
  by (relation "measure (\<lambda>(i, total_conversions, batch_size). total_conversions - i)") auto

declare batch_starts.simps [simp del]

text \<open>
  \<^verbatim>\<open>range(0, total_conversions, batch_size)\<close> for any integer step: a zero step raises
  \<^verbatim>\<open>ValueError\<close>, a negative one gives the empty range.
\<close>

definition batch_range :: "nat \<Rightarrow> int \<Rightarrow> error + nat list" where
  "batch_range total_conversions batch_size =
     (if batch_size = 0 then Inl ValueError
      else if batch_size < 0 then Inr []
      else Inr (batch_starts 0 total_conversions (nat batch_size)))"

text \<open>Line 227: \<^verbatim>\<open>conversion_ids[i:i + batch_size]\<close>.\<close>

definition batch_conversion_ids :: "string list \<Rightarrow> nat \<Rightarrow> nat \<Rightarrow> string list" where
  "batch_conversion_ids conversion_ids batch_size i = take batch_size (drop i conversion_ids)"

text \<open>Lines 229-231: the records of the conversions of one batch.\<close>

fun batch_journeys :: "(string \<times> flat_journey list) list \<Rightarrow> string list \<Rightarrow> flat_journey list" where
  "batch_journeys d [] = []"
| "batch_journeys d (cid # rest) =
     journeys_for d cid @ batch_journeys d rest"

subsection \<open>The scoring service and its responses\<close>

text \<open>One entry of the \<^verbatim>\<open>sessions\<close> list of a conversion in the response.\<close>

record session_data =
  sd_session_id :: "string option"
  sd_ihc :: "rat option"

record conv_data =
  cd_conversion_id :: "string option"
  cd_sessions :: "session_data list option"

text \<open>The JSON body: the fields the orchestrator reads.\<close>

record api_results =
  statusCode :: "int option"
  partialFailureErrors :: "string option"
  value_field :: "conv_data list option"

datatype http_body = NotJson | Json api_results

text \<open>
  What \<^verbatim>\<open>requests.post\<close> gives: no response at all (connection error, timeout), or a
  response with an HTTP status and a body.
\<close>

datatype response = ConnectionFailed | TimedOut | Response nat http_body

text \<open>
  The service is a parameter: it answers the \<open>k\<close>-th request (counted from 0) of a run,
  whose \<^verbatim>\<open>customer_journeys\<close> are the given records.
\<close>

type_synonym service = "nat \<Rightarrow> flat_journey list \<Rightarrow> response"

text \<open>What the orchestrator does that can be observed besides its result.\<close>

datatype event =
    ProcessingBatch nat nat nat
  | Posted "flat_journey list"
  | ApiError
  | PartialFailures
  | UnexpectedFormat
  | BatchCallError
  | Completed nat

text \<open>
  Lines 249-256: the request, \<^verbatim>\<open>raise_for_status\<close> (which raises for a status from 400
  to 599) and the decoding of the body (which raises when the body is not JSON).
\<close>

definition request_outcome :: "response \<Rightarrow> error + api_results" where
  "request_outcome resp =
     (case resp of
        ConnectionFailed \<Rightarrow> Inl ConnectionError
      | TimedOut \<Rightarrow> Inl Timeout
      | Response status body \<Rightarrow>
          (if 400 \<le> status \<and> status < 600 then Inl (HTTPError status)
           else (case body of NotJson \<Rightarrow> Inl JSONDecodeError | Json results \<Rightarrow> Inr results)))"

subsection \<open>Reconciliation\<close>

text \<open>The loop of lines 278-283 over the sessions of one conversion of the response.\<close>

fun add_sessions :: "session_data list \<Rightarrow> weights \<Rightarrow> weights" where
  "add_sessions [] d = d"
| "add_sessions (sd # rest) d =
     (case sd_session_id sd of
        None \<Rightarrow> add_sessions rest d
      | Some sid \<Rightarrow>
          (if sid \<noteq> [] \<and> \<not> prefix ''conversion_'' sid
           then add_sessions rest
                  (AList.update sid (case sd_ihc sd of None \<Rightarrow> 0 | Some v \<Rightarrow> v) d)
           else add_sessions rest d))"

text \<open>The loop of lines 269-283 over the conversions of the response.\<close>

fun add_conversions :: "conv_data list \<Rightarrow> attribution \<Rightarrow> attribution" where
  "add_conversions [] combined_results = combined_results"
| "add_conversions (cd # rest) combined_results =
     (case cd_conversion_id cd of
        None \<Rightarrow> add_conversions rest combined_results
      | Some cid \<Rightarrow>
          (if cid = [] then add_conversions rest combined_results
           else
             (let c1 = (if map_of combined_results cid = None
                        then AList.update cid [] combined_results else combined_results);
                  d0 = (case map_of c1 cid of None \<Rightarrow> [] | Some d \<Rightarrow> d);
                  sds = (case cd_sessions cd of None \<Rightarrow> [] | Some sds \<Rightarrow> sds)
              in add_conversions rest (AList.update cid (add_sessions sds d0) c1))))"

subsection \<open>The batch loop\<close>

text \<open>
  Lines 258-286, once the body is decoded: an application-level error skips the batch
  (\<^verbatim>\<open>continue\<close>), otherwise the values are merged into \<^verbatim>\<open>combined_results\<close>.
\<close>

definition handle_results :: "api_results \<Rightarrow> attribution \<Rightarrow> event list \<times> attribution" where
  "handle_results results combined_results =
     (if statusCode results \<noteq> None \<and> statusCode results \<noteq> Some 200
      then (ApiError # (if partialFailureErrors results \<noteq> None then [PartialFailures] else []),
            combined_results)
      else (case value_field results of
              Some attribution_values \<Rightarrow> ([], add_conversions attribution_values combined_results)
            | None \<Rightarrow> ([UnexpectedFormat], combined_results)))"

text \<open>
  Lines 244-293 for one batch: an exception of the request is logged and raised again
  (the two further log lines of the handler, about the response of the exception, are not
  modelled).
\<close>

definition call_batch :: "response \<Rightarrow> attribution \<Rightarrow> event list \<times> (error + attribution)" where
  "call_batch resp combined_results =
     (case request_outcome resp of
        Inl e \<Rightarrow> ([BatchCallError], Inl e)
      | Inr results \<Rightarrow>
          (case handle_results results combined_results of
             (events, combined') \<Rightarrow> (events, Inr combined')))"

text \<open>
  The loop of lines 226-293 over the batch start indices; \<open>k\<close> counts the requests made so
  far and \<open>trace\<close> collects the events.
\<close>

fun process_batches ::
    "service \<Rightarrow> (string \<times> flat_journey list) list \<Rightarrow> string list \<Rightarrow> nat \<Rightarrow> nat list \<Rightarrow> nat
       \<Rightarrow> attribution \<Rightarrow> event list \<Rightarrow> event list \<times> (error + attribution)" where
  "process_batches post d conversion_ids batch_size [] k combined_results trace =
     (trace, Inr combined_results)"
| "process_batches post d conversion_ids batch_size (i # rest) k combined_results trace =
     (let ids = batch_conversion_ids conversion_ids batch_size i;
          journeys = batch_journeys d ids;
          trace1 = trace @ [ProcessingBatch (i div batch_size + 1) (length ids) (length journeys),
                            Posted journeys]
      in case call_batch (post k journeys) combined_results of
           (events, Inl e) \<Rightarrow> (trace1 @ events, Inl e)
         | (events, Inr combined') \<Rightarrow>
             process_batches post d conversion_ids batch_size rest (k + 1) combined'
               (trace1 @ events))"

text \<open>Lines 156-206: the grouped records and the conversion ids, in insertion order.\<close>

definition journeys_by_conversion :: "journey_payload \<Rightarrow> (string \<times> flat_journey list) list" where
  "journeys_by_conversion journey_payload =
     group_by_conversion (flatten_users journey_payload) []"

definition conversion_ids :: "journey_payload \<Rightarrow> string list" where
  "conversion_ids journey_payload = map fst (journeys_by_conversion journey_payload)"

definition call_ihc_api_batched ::
    "service \<Rightarrow> journey_payload \<Rightarrow> int \<Rightarrow> event list \<times> (error + attribution)" where
  "call_ihc_api_batched post journey_payload max_journeys =
     (let total_conversions = length (conversion_ids journey_payload)
      in case batch_range total_conversions max_journeys of
           Inl e \<Rightarrow> ([], Inl e)
         | Inr starts \<Rightarrow>
             (case process_batches post (journeys_by_conversion journey_payload)
                     (conversion_ids journey_payload) (nat max_journeys) starts 0 [] [] of
                (trace, Inl e) \<Rightarrow> (trace, Inl e)
              | (trace, Inr combined_results) \<Rightarrow>
                  (trace @ [Completed (length combined_results)], Inr combined_results)))"

text \<open>
  For stating properties: the batches of conversion ids and the requests of a run with a
  positive batch size, as the loop computes them, and the requests recorded in a trace.
\<close>

definition id_batches :: "journey_payload \<Rightarrow> nat \<Rightarrow> string list list" where
  "id_batches journey_payload batch_size =
     map (batch_conversion_ids (conversion_ids journey_payload) batch_size)
       (batch_starts 0 (length (conversion_ids journey_payload)) batch_size)"

definition batch_requests :: "journey_payload \<Rightarrow> nat \<Rightarrow> flat_journey list list" where
  "batch_requests journey_payload batch_size =
     map (batch_journeys (journeys_by_conversion journey_payload))
       (id_batches journey_payload batch_size)"

fun posted :: "event list \<Rightarrow> flat_journey list list" where
  "posted [] = []"
| "posted (Posted js # rest) = js # posted rest"
| "posted (ev # rest) = posted rest"

section \<open>The journey builder: \<^verbatim>\<open>build_customer_journeys\<close>\<close>

text \<open>
  A row of \<^verbatim>\<open>sessions_df\<close> and of \<^verbatim>\<open>conversions_df\<close>. The \<^verbatim>\<open>timestamp\<close> column holds
  pandas timestamps, counted here in nanoseconds since the epoch; a missing cost (NaN) is
  \<open>None\<close>; the engagement flags are the integers of the storage layer. Every other column
  holds a value, so the conversions of lines 38-55 do not raise.
\<close>

record session_row =
  sr_session_id :: string
  sr_user_id :: string
  sr_timestamp :: int
  sr_channel_name :: string
  sr_holder_engagement :: int
  sr_closer_engagement :: int
  sr_impression_interaction :: int
  sr_cost :: "rat option"

record conversion_row =
  cr_conv_id :: string
  cr_user_id :: string
  cr_timestamp :: int
  cr_revenue :: rat

text \<open>
  \<^verbatim>\<open>strftime('%Y-%m-%d %H:%M:%S')\<close> keeps the whole second of a timestamp and drops the
  rest.
\<close>

definition strftime :: "int \<Rightarrow> int" where
  "strftime t = t div 1000000000"

text \<open>Lines 38-45.\<close>

definition session_dict :: "session_row \<Rightarrow> session" where
  "session_dict row =
     \<lparr>session_id = sr_session_id row,
      timestamp = strftime (sr_timestamp row),
      channel = sr_channel_name row,
      holder_engagement = (sr_holder_engagement row \<noteq> 0),
      closer_engagement = (sr_closer_engagement row \<noteq> 0),
      impression_interaction = (sr_impression_interaction row \<noteq> 0),
      cost = (case sr_cost row of None \<Rightarrow> 0 | Some x \<Rightarrow> x)\<rparr>"

text \<open>Lines 52-55.\<close>

definition conversion_dict :: "conversion_row \<Rightarrow> conversion" where
  "conversion_dict row =
     \<lparr>conv_id = cr_conv_id row,
      conv_timestamp = strftime (cr_timestamp row),
      revenue = cr_revenue row\<rparr>"

text \<open>The loop of lines 37-46.\<close>

fun sessions_list :: "session_row list \<Rightarrow> session list" where
  "sessions_list [] = []"
| "sessions_list (row # rest) = session_dict row # sessions_list rest"

text \<open>
  The loop of lines 49-56: a conversion is kept when some session of the user is strictly
  before it, by the timestamps of the data frames.
\<close>

fun conversions_list :: "session_row list \<Rightarrow> conversion_row list \<Rightarrow> conversion list" where
  "conversions_list user_sessions [] = []"
| "conversions_list user_sessions (row # rest) =
     (if 0 < length (filter (\<lambda>s. sr_timestamp s < cr_timestamp row) user_sessions)
      then conversion_dict row # conversions_list user_sessions rest
      else conversions_list user_sessions rest)"

text \<open>
  Line 26: the users with both sessions and conversions. Python iterates a set in an order
  it does not specify; the model takes the order of \<open>remdups\<close>.
\<close>

definition all_users :: "session_row list \<Rightarrow> conversion_row list \<Rightarrow> string list" where
  "all_users sessions_df conversions_df =
     filter (\<lambda>u. u \<in> set (map cr_user_id conversions_df)) (remdups (map sr_user_id sessions_df))"

text \<open>The loop of lines 29-61; \<open>users_data\<close> is the dictionary being filled.\<close>

fun build_users ::
    "string list \<Rightarrow> session_row list \<Rightarrow> conversion_row list \<Rightarrow> journey_payload \<Rightarrow> journey_payload" where
  "build_users [] sessions_df conversions_df users_data = users_data"
| "build_users (user_id # rest) sessions_df conversions_df users_data =
     (let user_sessions = filter (\<lambda>s. sr_user_id s = user_id) sessions_df;
          user_conversions = filter (\<lambda>c. cr_user_id c = user_id) conversions_df
      in if length user_sessions = 0 \<or> length user_conversions = 0
         then build_users rest sessions_df conversions_df users_data
         else
           (let sl = sessions_list user_sessions;
                cl = conversions_list user_sessions user_conversions
            in if sl \<noteq> [] \<and> cl \<noteq> []
               then build_users rest sessions_df conversions_df
                      (AList.update user_id \<lparr>sessions = sl, conversions = cl\<rparr> users_data)
               else build_users rest sessions_df conversions_df users_data))"

definition build_customer_journeys :: "session_row list \<Rightarrow> conversion_row list \<Rightarrow> journey_payload" where
  "build_customer_journeys sessions_df conversions_df =
     build_users (all_users sessions_df conversions_df) sessions_df conversions_df []"

section \<open>The pipeline: \<^verbatim>\<open>run_pipeline\<close>\<close>

text \<open>
  Steps 3 to 5 of \<^verbatim>\<open>run_pipeline\<close> on the data frames read in step 2, with the store of
  attribution rows as state. Any exception of the attribution call is caught and the
  pipeline returns \<open>False\<close>; the reporting steps 6 and 7 do not write attribution rows, and
  \<open>reporting_ok\<close> says whether they succeed. The batched call uses the default of 100
  conversions per batch.
\<close>

definition run_pipeline ::
    "service \<Rightarrow> bool \<Rightarrow> session_row list \<Rightarrow> conversion_row list \<Rightarrow> bool
       \<Rightarrow> attribution_row list \<Rightarrow> bool \<times> attribution_row list" where
  "run_pipeline post reporting_ok sessions_df conversions_df test_mode db =
     (let journey_payload = build_customer_journeys sessions_df conversions_df;
          attribution_results =
            (if test_mode then call_ihc_api_test journey_payload
             else snd (call_ihc_api_batched post journey_payload 100))
      in case attribution_results of
           Inl e \<Rightarrow> (False, db)
         | Inr results \<Rightarrow> (reporting_ok, fst (save_attribution_results results db)))"

text \<open>
  For stating properties: the conversion ids of the users that are not skipped, in the
  order of the payload, and for each conversion its id with the number of its eligible
  sessions.
\<close>

fun payload_conv_ids :: "journey_payload \<Rightarrow> string list" where
  "payload_conv_ids [] = []"
| "payload_conv_ids ((u, j) # rest) =
     (if sessions j = [] then payload_conv_ids rest
      else map conv_id (conversions j) @ payload_conv_ids rest)"

definition blocks_of :: "session list \<Rightarrow> conversion list \<Rightarrow> (string \<times> nat) list" where
  "blocks_of sess cs =
     map (\<lambda>c. (conv_id c, length (eligible_sessions sess (conv_timestamp c)))) cs"

fun payload_blocks :: "journey_payload \<Rightarrow> (string \<times> nat) list" where
  "payload_blocks [] = []"
| "payload_blocks ((u, j) # rest) =
     (if sessions j = [] \<or> conversions j = [] then payload_blocks rest
      else blocks_of (sessions j) (conversions j) @ payload_blocks rest)"



text \<open>
  The invariant of the attribution table while the engine runs: keys are distinct, every
  weight is positive, and a mapping that is not empty sums to one.
\<close>

definition weights_ok :: "weights \<Rightarrow> bool" where
  "weights_ok d \<longleftrightarrow>
     distinct (map fst d) \<and> (\<forall>w \<in> snd ` set d. 0 < w) \<and> (d \<noteq> [] \<longrightarrow> sum_list (map snd d) = 1)"

definition table_ok :: "attribution \<Rightarrow> bool" where
  "table_ok t \<longleftrightarrow> (\<forall>(cid, d) \<in> set t. weights_ok d)"

text \<open>
  The scenario of the specification: sessions at 09:00 (Search), 10:00 (Email, holder
  engagement) and 11:00 (Direct, closer engagement), one conversion at 12:00.
\<close>

definition example_sessions :: "session list" where
  "example_sessions =
     [\<lparr>session_id = ''s1'', timestamp = 32400, channel = ''Paid Search'',
       holder_engagement = False, closer_engagement = False,
       impression_interaction = False, cost = 0\<rparr>,
      \<lparr>session_id = ''s2'', timestamp = 36000, channel = ''Email'',
       holder_engagement = True, closer_engagement = False,
       impression_interaction = False, cost = 0\<rparr>,
      \<lparr>session_id = ''s3'', timestamp = 39600, channel = ''Direct'',
       holder_engagement = False, closer_engagement = True,
       impression_interaction = False, cost = 0\<rparr>]"

definition example_conversion :: conversion where
  "example_conversion = \<lparr>conv_id = ''c1'', conv_timestamp = 43200, revenue = 50\<rparr>"

definition example_payload :: journey_payload where
  "example_payload =
     [(''u1'', \<lparr>sessions = example_sessions, conversions = [example_conversion]\<rparr>)]"

text \<open>The same sessions with a conversion at 09:00, the instant of the first session.\<close>

definition early_payload :: journey_payload where
  "early_payload =
     [(''u1'', \<lparr>sessions = example_sessions,
               conversions = [\<lparr>conv_id = ''c0'', conv_timestamp = 32400, revenue = 50\<rparr>]\<rparr>)]"



text \<open>A journey with 250 conversions, and a service that accepts every request.\<close>

definition many_conversions :: "conversion list" where
  "many_conversions =
     map (\<lambda>n. \<lparr>conv_id = replicate (Suc n) CHR ''c'', conv_timestamp = 43200, revenue = 1\<rparr>)
       [0..<250]"

definition big_payload :: journey_payload where
  "big_payload = [(''u1'', \<lparr>sessions = example_sessions, conversions = many_conversions\<rparr>)]"

definition ok_service :: service where
  "ok_service k js =
     Response 200 (Json \<lparr>statusCode = None, partialFailureErrors = None, value_field = Some []\<rparr>)"



definition timeout_service :: service where
  "timeout_service k js = TimedOut"






text \<open>One session at 09:00:00 and one conversion at 12:00:00 of the same user, as rows.\<close>

definition one_session_df :: "session_row list" where
  "one_session_df =
     [\<lparr>sr_session_id = ''s1'', sr_user_id = ''u1'', sr_timestamp = 32400000000000,
       sr_channel_name = ''Email'', sr_holder_engagement = 1, sr_closer_engagement = 0,
       sr_impression_interaction = 0, sr_cost = None\<rparr>]"

definition one_conversion_df :: "conversion_row list" where
  "one_conversion_df =
     [\<lparr>cr_conv_id = ''c1'', cr_user_id = ''u1'', cr_timestamp = 43200000000000,
       cr_revenue = 50\<rparr>]"




text \<open>A session at 09:00:00.1 and a conversion at 09:00:00.9 of the same user.\<close>

definition subsecond_sessions_df :: "session_row list" where
  "subsecond_sessions_df =
     [\<lparr>sr_session_id = ''s1'', sr_user_id = ''u1'', sr_timestamp = 32400100000000,
       sr_channel_name = ''Email'', sr_holder_engagement = 0, sr_closer_engagement = 0,
       sr_impression_interaction = 0, sr_cost = None\<rparr>]"

definition subsecond_conversions_df :: "conversion_row list" where
  "subsecond_conversions_df =
     [\<lparr>cr_conv_id = ''c1'', cr_user_id = ''u1'', cr_timestamp = 32400900000000,
       cr_revenue = 50\<rparr>]"

section \<open>Verification\<close>

subsection \<open>The heuristic engine never fails and keeps its table normalised\<close>


lemma channel_weight_bounds: "8 / 10 \<le> channel_weight ch \<and> channel_weight ch \<le> 13 / 10"
  by (simp add: channel_weight_def)

lemma engagement_weight_bounds: "1 \<le> engagement_weight s \<and> engagement_weight s \<le> 22 / 10"
  by (simp add: engagement_weight_def Let_def)

lemma raw_weight_Inr:
  "0 < n \<Longrightarrow> raw_weight i n s =
     Inr (of_nat (i + 1) / of_nat n * channel_weight (channel s) * engagement_weight s)"
  by (simp add: raw_weight_def truediv_def)

lemma raw_weight_pos:
  assumes "0 < n"
  shows "0 < of_nat (i + 1) / (of_nat n :: rat) * channel_weight (channel s) * engagement_weight s"
proof -
  have a: "0 < of_nat (i + 1) / (of_nat n :: rat)" using assms by simp
  have b: "0 < channel_weight (channel s)"
    using channel_weight_bounds [of "channel s"] by linarith
  have c: "0 < engagement_weight s"
    using engagement_weight_bounds [of s] by linarith
  show ?thesis using a b c by (intro mult_pos_pos)
qed

lemma set_update_subset: "set (AList.update k v d) \<subseteq> insert (k, v) (set d)"
  by (induction d) auto

lemma score_sessions_Inr:
  "0 < n \<Longrightarrow> \<exists>d'. score_sessions i n ss d = Inr d'"
  by (induction ss arbitrary: i d) (auto simp: raw_weight_Inr)

lemma score_sessions_pos:
  "0 < n \<Longrightarrow> score_sessions i n ss d = Inr d' \<Longrightarrow> \<forall>w \<in> snd ` set d. 0 < w
     \<Longrightarrow> \<forall>w \<in> snd ` set d'. 0 < w"
proof (induction ss arbitrary: i d)
  case Nil
  then show ?case by simp
next
  case (Cons s ss)
  let ?w = "of_nat (i + 1) / of_nat n * channel_weight (channel s) * engagement_weight s"
  from Cons.prems have step: "score_sessions (i + 1) n ss (AList.update (session_id s) ?w d) = Inr d'"
    by (simp add: raw_weight_Inr)
  have "\<forall>w \<in> snd ` set (AList.update (session_id s) ?w d). 0 < w"
    using set_update_subset [of "session_id s" ?w d] Cons.prems(3) raw_weight_pos [OF Cons.prems(1), of i s]
    by fastforce
  from Cons.IH [OF Cons.prems(1) step this] show ?case .
qed

lemma score_sessions_distinct:
  "score_sessions i n ss d = Inr d' \<Longrightarrow> distinct (map fst d) \<Longrightarrow> distinct (map fst d')"
  by (induction ss arbitrary: i d) (auto split: sum.splits simp: distinct_update)

lemma score_sessions_nonempty:
  "score_sessions i n ss d = Inr d' \<Longrightarrow> ss \<noteq> [] \<or> d \<noteq> [] \<Longrightarrow> d' \<noteq> []"
  by (induction ss arbitrary: i d) (auto split: sum.splits)

lemma update_as_map:
  "distinct (map fst d) \<Longrightarrow> map_of d k = Some v \<Longrightarrow>
   AList.update k v' d = map (\<lambda>(k', w). (k', if k' = k then v' else w)) d"
proof (induction d)
  case Nil
  then show ?case by simp
next
  case (Cons p d)
  obtain a b where p: "p = (a, b)" by (cases p)
  show ?case
  proof (cases "a = k")
    case True
    with Cons.prems p have "k \<notin> fst ` set d" by auto
    then have "map (\<lambda>(k', w). (k', if k' = k then v' else w)) d = d"
      by (induction d) auto
    with True p show ?thesis by simp
  next
    case False
    with Cons p show ?thesis by simp
  qed
qed

lemma normalize_as_map:
  "tw \<noteq> 0 \<Longrightarrow> distinct (map fst d) \<Longrightarrow> distinct ks \<Longrightarrow> set ks \<subseteq> fst ` set d \<Longrightarrow>
   normalize ks tw d = Inr (map (\<lambda>(k, w). (k, if k \<in> set ks then w / tw else w)) d)"
proof (induction ks arbitrary: d)
  case Nil
  then show ?case by simp
next
  case (Cons k ks)
  from Cons.prems(4) have "k \<in> fst ` set d" by simp
  then obtain v where v: "map_of d k = Some v"
    by (metis domD dom_map_of_conv_image_fst)
  let ?d = "AList.update k (v / tw) d"
  have upd: "?d = map (\<lambda>(k', w). (k', if k' = k then v / tw else w)) d"
    using update_as_map [OF Cons.prems(2) v] .
  have d1: "distinct (map fst ?d)" using Cons.prems(2) by (simp add: distinct_update)
  have d2: "distinct ks" using Cons.prems(3) by simp
  have d3: "set ks \<subseteq> fst ` set ?d" using Cons.prems(4) by (auto simp: dom_update)
  have "normalize (k # ks) tw d = normalize ks tw ?d"
    using v Cons.prems(1) by (simp add: truediv_def)
  also have "\<dots> = Inr (map (\<lambda>(k', w). (k', if k' \<in> set ks then w / tw else w)) ?d)"
    using Cons.IH [OF Cons.prems(1) d1 d2 d3] .
  also have "map (\<lambda>(k', w). (k', if k' \<in> set ks then w / tw else w)) ?d
      = map (\<lambda>(k', w). (k', if k' \<in> set (k # ks) then w / tw else w)) d"
  proof -
    have "k \<notin> set ks" using Cons.prems(3) by simp
    moreover have "\<forall>(k', w) \<in> set d. k' = k \<longrightarrow> w = v"
    proof clarify
      fix w assume "(k, w) \<in> set d"
      then have "map_of d k = Some w" using Cons.prems(2) by (rule map_of_is_SomeI [rotated])
      with v show "w = v" by simp
    qed
    ultimately show ?thesis unfolding upd by (auto simp: o_def split: prod.splits)
  qed
  finally show ?case .
qed

lemma normalize_all:
  assumes "tw \<noteq> 0" "distinct (map fst d)"
  shows "normalize (map fst d) tw d = Inr (map (\<lambda>(k, w). (k, w / tw)) d)"
proof -
  have "normalize (map fst d) tw d
      = Inr (map (\<lambda>(k, w). (k, if k \<in> set (map fst d) then w / tw else w)) d)"
    using normalize_as_map [OF assms(1) assms(2) assms(2)] by simp
  also have "map (\<lambda>(k, w). (k, if k \<in> set (map fst d) then w / tw else w)) d
      = map (\<lambda>(k, w). (k, w / tw)) d"
    by (rule map_cong) (auto simp: rev_image_eqI)
  finally show ?thesis .
qed

lemma sum_list_pos_nonempty:
  "xs \<noteq> [] \<Longrightarrow> \<forall>x \<in> set xs. (0::rat) < x \<Longrightarrow> 0 < sum_list xs"
  by (induction xs) (auto intro: add_pos_nonneg sum_list_nonneg less_imp_le)

lemma sum_list_divide: "sum_list (map (\<lambda>(k, w). w / t) d) = sum_list (map snd d) / (t::rat)"
  by (induction d) (auto simp: add_divide_distrib)

lemma table_ok_update:
  "table_ok t \<Longrightarrow> weights_ok d \<Longrightarrow> table_ok (AList.update k d t)"
  using set_update_subset [of k d t] by (auto simp: table_ok_def)

lemma table_ok_lookup: "table_ok t \<Longrightarrow> map_of t k = Some d \<Longrightarrow> weights_ok d"
  by (auto simp: table_ok_def dest: map_of_SomeD)

lemma score_then_normalize:
  assumes ok: "weights_ok d0" and ne: "ss \<noteq> []"
  shows "\<exists>d1 d2. score_sessions 0 (length ss) ss d0 = Inr d1
           \<and> 0 < sum_list (map snd d1)
           \<and> normalize (map fst d1) (sum_list (map snd d1)) d1 = Inr d2
           \<and> d2 = map (\<lambda>(k, w). (k, w / sum_list (map snd d1))) d1
           \<and> weights_ok d2 \<and> d2 \<noteq> []"
proof -
  have n: "0 < length ss" using ne by simp
  obtain d1 where d1: "score_sessions 0 (length ss) ss d0 = Inr d1"
    using score_sessions_Inr [OF n] by blast
  have pos: "\<forall>w \<in> snd ` set d1. 0 < w"
    using score_sessions_pos [OF n d1] ok by (simp add: weights_ok_def)
  have dist: "distinct (map fst d1)"
    using score_sessions_distinct [OF d1] ok by (simp add: weights_ok_def)
  have d1ne: "d1 \<noteq> []" using score_sessions_nonempty [OF d1] ne by simp
  let ?t = "sum_list (map snd d1)"
  have tpos: "0 < ?t" using sum_list_pos_nonempty [of "map snd d1"] d1ne pos by simp
  let ?d2 = "map (\<lambda>(k, w). (k, w / ?t)) d1"
  have norm: "normalize (map fst d1) ?t d1 = Inr ?d2"
    using normalize_all [of ?t d1] tpos dist by simp
  have keys: "map fst ?d2 = map fst d1" by (induction d1) auto
  have vals: "map snd ?d2 = map (\<lambda>(k, w). w / ?t) d1" by (induction d1) auto
  have one: "sum_list (map snd ?d2) = 1"
    unfolding vals sum_list_divide using tpos by simp
  have pos2: "\<forall>w \<in> snd ` set ?d2. 0 < w"
    using pos tpos by (auto simp: rev_image_eqI)
  have dist2: "distinct (map fst ?d2)" using dist by (simp only: keys)
  have "weights_ok ?d2" unfolding weights_ok_def using one pos2 dist2 by blast
  with d1 tpos norm d1ne show ?thesis by simp
qed

lemma process_conversion_ok:
  assumes "table_ok tbl"
  shows "\<exists>tbl'. process_conversion ss tbl c = Inr tbl' \<and> table_ok tbl'"
proof -
  define r1 where "r1 = (if map_of tbl (conv_id c) = None
                      then AList.update (conv_id c) [] tbl else tbl)"
  have r1ok: "table_ok r1"
    using assms by (simp add: r1_def table_ok_update weights_ok_def)
  have "map_of r1 (conv_id c) \<noteq> None" by (auto simp: r1_def update_conv')
  then obtain d0 where d0: "map_of r1 (conv_id c) = Some d0" by blast
  have d0ok: "weights_ok d0" using table_ok_lookup [OF r1ok d0] .
  show ?thesis
  proof (cases "eligible_sessions ss (conv_timestamp c) = []")
    case True
    then show ?thesis using r1ok by (simp add: process_conversion_def r1_def [symmetric])
  next
    case False
    from score_then_normalize [OF d0ok False] obtain d1 d2 where
      s: "score_sessions 0 (length (eligible_sessions ss (conv_timestamp c)))
            (eligible_sessions ss (conv_timestamp c)) d0 = Inr d1"
      and n: "normalize (map fst d1) (sum_list (map snd d1)) d1 = Inr d2"
      and ok2: "weights_ok d2" by blast
    have "process_conversion ss tbl c = Inr (AList.update (conv_id c) d2 r1)"
      using False d0 s n by (simp add: process_conversion_def r1_def [symmetric])
    with table_ok_update [OF r1ok ok2] show ?thesis by simp
  qed
qed

lemma process_conversions_ok:
  "table_ok tbl \<Longrightarrow> \<exists>tbl'. process_conversions ss cs tbl = Inr tbl' \<and> table_ok tbl'"
proof (induction cs arbitrary: tbl)
  case Nil
  then show ?case by simp
next
  case (Cons c cs)
  from process_conversion_ok [OF Cons.prems, of ss c] obtain t1 where
    "process_conversion ss tbl c = Inr t1" "table_ok t1" by blast
  with Cons.IH [of t1] show ?case by simp
qed

lemma process_user_ok:
  "table_ok tbl \<Longrightarrow> \<exists>tbl'. process_user j tbl = Inr tbl' \<and> table_ok tbl'"
  using process_conversions_ok by (simp add: process_user_def)

lemma process_users_ok:
  "table_ok tbl \<Longrightarrow> \<exists>tbl'. process_users p tbl = Inr tbl' \<and> table_ok tbl'"
proof (induction p arbitrary: tbl)
  case Nil
  then show ?case by simp
next
  case (Cons uj p)
  obtain u j where uj: "uj = (u, j)" by (cases uj)
  from process_user_ok [OF Cons.prems, of j] obtain t1 where
    "process_user j tbl = Inr t1" "table_ok t1" by blast
  with Cons.IH [of t1] uj show ?case by simp
qed

lemma call_ihc_api_test_ok:
  "\<exists>tbl. call_ihc_api_test p = Inr tbl \<and> table_ok tbl"
  unfolding call_ihc_api_test_def by (rule process_users_ok) (simp add: table_ok_def)

lemma score_sessions_total_pos:
  assumes ne: "ss \<noteq> []" and pos: "\<forall>w \<in> snd ` set d0. 0 < w"
  shows "\<exists>d1. score_sessions 0 (length ss) ss d0 = Inr d1 \<and> 0 < sum_list (map snd d1)"
proof -
  have n: "0 < length ss" using ne by simp
  obtain d1 where d1: "score_sessions 0 (length ss) ss d0 = Inr d1"
    using score_sessions_Inr [OF n] by blast
  have "\<forall>w \<in> snd ` set d1. 0 < w" using score_sessions_pos [OF n d1 pos] .
  moreover have "d1 \<noteq> []" using score_sessions_nonempty [OF d1] ne by simp
  ultimately have "0 < sum_list (map snd d1)"
    using sum_list_pos_nonempty [of "map snd d1"] by simp
  with d1 show ?thesis by blast
qed

lemma example_result:
  "call_ihc_api_test example_payload =
     Inr [(''c1'', [(''s1'', 65 / 449), (''s2'', 180 / 449), (''s3'', 204 / 449)])]"
  by (simp add: call_ihc_api_test_def example_payload_def example_sessions_def
      example_conversion_def process_user_def process_conversion_def raw_weight_def
      truediv_def channel_weight_def engagement_weight_def Let_def)

text \<open>
  C1. For every \<open>conv_id\<close> present in the table returned by \<open>call_ihc_api_test\<close>, the weights
  of its sessions sum to 1 (hence within \<open>1e-9\<close> of 1) whenever at least one weight is
  positive. Weights are exact rationals here.
\<close>

theorem heuristic_weights_sum_to_one:
  assumes "call_ihc_api_test journey_payload = Inr tbl"
    and "map_of tbl cid = Some d"
    and "\<exists>w \<in> snd ` set d. 0 < w"
  shows "sum_list (map snd d) = 1 \<and> \<bar>sum_list (map snd d) - 1\<bar> \<le> 1 / 10 ^ 9"
proof -
  from call_ihc_api_test_ok [of journey_payload] assms(1) have "table_ok tbl" by simp
  then have "weights_ok d" using assms(2) by (rule table_ok_lookup)
  moreover have "d \<noteq> []" using assms(3) by auto
  ultimately have "sum_list (map snd d) = 1" by (simp add: weights_ok_def)
  then show ?thesis by simp
qed

theorem heuristic_weights_sum_to_one_witness:
  "call_ihc_api_test example_payload =
     Inr [(''c1'', [(''s1'', 65 / 449), (''s2'', 180 / 449), (''s3'', 204 / 449)])]
   \<and> map_of [(''c1'', [(''s1'', 65 / 449 :: rat), (''s2'', 180 / 449), (''s3'', 204 / 449)])] ''c1''
       = Some [(''s1'', 65 / 449), (''s2'', 180 / 449), (''s3'', 204 / 449)]
   \<and> (\<exists>w \<in> snd ` set [(''s1'', 65 / 449 :: rat), (''s2'', 180 / 449), (''s3'', 204 / 449)]. 0 < w)
   \<and> sum_list (map snd [(''s1'', 65 / 449 :: rat), (''s2'', 180 / 449), (''s3'', 204 / 449)]) = 1"
proof -
  let ?d = "[(''s1'', 65 / 449 :: rat), (''s2'', 180 / 449), (''s3'', 204 / 449)]"
  have h1: "call_ihc_api_test example_payload = Inr [(''c1'', ?d)]" by (rule example_result)
  have h2: "map_of [(''c1'', ?d)] ''c1'' = Some ?d" by simp
  have h3: "\<exists>w \<in> snd ` set ?d. 0 < w" by simp
  from heuristic_weights_sum_to_one [OF h1 h2 h3] h1 h2 h3 show ?thesis by blast
qed

text \<open>
  C10. Every raw weight is strictly positive: the recency factor is at least \<open>1/N\<close>, the
  channel weight at least 0.8 and the engagement weight at least 1. So for a conversion with
  an eligible session the divisor \<open>total_weight\<close> is positive, the engine never raises
  \<open>ZeroDivisionError\<close>, and every weight of the returned table is strictly positive.
\<close>

theorem heuristic_weights_positive:
  "(i < n \<longrightarrow> (\<exists>w. raw_weight i n s = Inr w \<and> 0 < w)
        \<and> 1 / of_nat n \<le> (of_nat (i + 1) / of_nat n :: rat))
   \<and> 8 / 10 \<le> channel_weight ch
   \<and> 1 \<le> engagement_weight s
   \<and> (eligible_sessions sess conv_ts \<noteq> [] \<longrightarrow> distinct (map fst d0) \<longrightarrow>
       (\<forall>w \<in> snd ` set d0. 0 < w) \<longrightarrow>
        (\<exists>d1 d2. score_sessions 0 (length (eligible_sessions sess conv_ts))
                 (eligible_sessions sess conv_ts) d0 = Inr d1
              \<and> 0 < sum_list (map snd d1)
              \<and> normalize (map fst d1) (sum_list (map snd d1)) d1 = Inr d2
              \<and> (\<forall>w \<in> snd ` set d2. 0 < w)))
   \<and> (\<exists>tbl. call_ihc_api_test journey_payload = Inr tbl
          \<and> (\<forall>cid d w. map_of tbl cid = Some d \<longrightarrow> w \<in> snd ` set d \<longrightarrow> 0 < w))"
proof (intro conjI impI)
  assume "i < n"
  then have n: "0 < n" by simp
  show "\<exists>w. raw_weight i n s = Inr w \<and> 0 < w"
    using raw_weight_Inr [OF n, of i s] raw_weight_pos [OF n, of i s] by simp
  show "1 / of_nat n \<le> (of_nat (i + 1) / of_nat n :: rat)"
    using n by (simp add: divide_le_cancel)
next
  show "8 / 10 \<le> channel_weight ch" using channel_weight_bounds by blast
  show "1 \<le> engagement_weight s" using engagement_weight_bounds by blast
next
  assume ne: "eligible_sessions sess conv_ts \<noteq> []" and dist: "distinct (map fst d0)"
    and pos: "\<forall>w \<in> snd ` set d0. 0 < w"
  let ?el = "eligible_sessions sess conv_ts"
  from score_sessions_total_pos [OF ne pos] obtain d1 where
    d1: "score_sessions 0 (length ?el) ?el d0 = Inr d1" and t: "0 < sum_list (map snd d1)"
    by blast
  let ?d2 = "map (\<lambda>(k, w). (k, w / sum_list (map snd d1))) d1"
  have n: "0 < length ?el" using ne by simp
  have pos1: "\<forall>w \<in> snd ` set d1. 0 < w" using score_sessions_pos [OF n d1 pos] .
  have norm: "normalize (map fst d1) (sum_list (map snd d1)) d1 = Inr ?d2"
    using normalize_all [of "sum_list (map snd d1)" d1] t score_sessions_distinct [OF d1 dist]
    by simp
  have "\<forall>w \<in> snd ` set ?d2. 0 < w" using pos1 t by (auto simp: rev_image_eqI)
  with d1 t norm show "\<exists>d1 d2. score_sessions 0 (length ?el) ?el d0 = Inr d1
      \<and> 0 < sum_list (map snd d1)
      \<and> normalize (map fst d1) (sum_list (map snd d1)) d1 = Inr d2
      \<and> (\<forall>w \<in> snd ` set d2. 0 < w)"
    by blast
next
  from call_ihc_api_test_ok [of journey_payload] obtain tbl where
    r: "call_ihc_api_test journey_payload = Inr tbl" and ok: "table_ok tbl" by blast
  have "\<forall>cid d w. map_of tbl cid = Some d \<longrightarrow> w \<in> snd ` set d \<longrightarrow> 0 < w"
    using table_ok_lookup [OF ok] by (auto simp: weights_ok_def)
  with r show "\<exists>tbl. call_ihc_api_test journey_payload = Inr tbl
      \<and> (\<forall>cid d w. map_of tbl cid = Some d \<longrightarrow> w \<in> snd ` set d \<longrightarrow> 0 < w)" by blast
qed

theorem heuristic_weights_positive_witness:
  "(0::nat) < 3
   \<and> eligible_sessions example_sessions 43200 \<noteq> []
   \<and> distinct (map fst [(''s0'', 1 :: rat)])
   \<and> list_all (\<lambda>w. 0 < w) (map snd [(''s0'', 1 :: rat)])
   \<and> raw_weight 0 3 (hd example_sessions) = Inr (13 / 30)
   \<and> (\<exists>d1 d2. score_sessions 0 (length (eligible_sessions example_sessions 43200))
                 (eligible_sessions example_sessions 43200) [(''s0'', 1)] = Inr d1
              \<and> 0 < sum_list (map snd d1)
              \<and> normalize (map fst d1) (sum_list (map snd d1)) d1 = Inr d2
              \<and> (\<forall>w \<in> snd ` set d2. 0 < w))
   \<and> (\<exists>tbl. call_ihc_api_test example_payload = Inr tbl
          \<and> (\<forall>cid d w. map_of tbl cid = Some d \<longrightarrow> w \<in> snd ` set d \<longrightarrow> 0 < w))"
proof -
  have h1: "(0::nat) < 3" by simp
  have h2: "eligible_sessions example_sessions 43200 \<noteq> []"
    by (simp add: example_sessions_def)
  have h3: "distinct (map fst [(''s0'', 1 :: rat)])" by simp
  have h4: "list_all (\<lambda>w. 0 < w) (map snd [(''s0'', 1 :: rat)])" by simp
  have h4': "\<forall>w \<in> snd ` set [(''s0'', 1 :: rat)]. 0 < w" by simp
  have h5: "raw_weight 0 3 (hd example_sessions) = Inr (13 / 30)"
    by (simp add: example_sessions_def raw_weight_def truediv_def channel_weight_def
        engagement_weight_def Let_def)
  from heuristic_weights_positive [of 0 3 "hd example_sessions" "''Email''" example_sessions
      43200 "[(''s0'', 1)]" example_payload] h1 h2 h3 h4 h4' h5
  show ?thesis by blast
qed

subsection \<open>Raw weights\<close>









subsection \<open>Conversions without an eligible session\<close>

lemma process_conversion_other:
  "process_conversion ss tbl c = Inr tbl' \<Longrightarrow> conv_id c \<noteq> cid \<Longrightarrow> map_of tbl' cid = map_of tbl cid"
  by (auto simp: process_conversion_def Let_def update_conv' split: if_splits option.splits sum.splits)

lemma process_conversion_no_eligible:
  "eligible_sessions ss (conv_timestamp c) = [] \<Longrightarrow>
   process_conversion ss tbl c =
     Inr (if map_of tbl (conv_id c) = None then AList.update (conv_id c) [] tbl else tbl)"
  by (simp add: process_conversion_def)

lemma process_conversion_empty_entry:
  assumes "process_conversion ss tbl c = Inr tbl'"
    and "conv_id c = cid \<longrightarrow> eligible_sessions ss (conv_timestamp c) = []"
  shows "(map_of tbl cid = None \<or> map_of tbl cid = Some [] \<longrightarrow>
            map_of tbl' cid = None \<or> map_of tbl' cid = Some [])
       \<and> (map_of tbl cid = Some [] \<longrightarrow> map_of tbl' cid = Some [])
       \<and> (conv_id c = cid \<longrightarrow> map_of tbl cid = None \<or> map_of tbl cid = Some [] \<longrightarrow>
            map_of tbl' cid = Some [])"
proof (cases "conv_id c = cid")
  case True
  with assms(2) have "eligible_sessions ss (conv_timestamp c) = []" by simp
  from process_conversion_no_eligible [OF this, of tbl] assms(1) True
  show ?thesis by (auto simp: update_conv' split: if_splits)
next
  case False
  from process_conversion_other [OF assms(1) False] False show ?thesis by simp
qed

lemma process_conversions_empty_entry:
  assumes "process_conversions ss cs tbl = Inr tbl'"
    and "\<forall>c \<in> set cs. conv_id c = cid \<longrightarrow> eligible_sessions ss (conv_timestamp c) = []"
  shows "(map_of tbl cid = None \<or> map_of tbl cid = Some [] \<longrightarrow>
            map_of tbl' cid = None \<or> map_of tbl' cid = Some [])
       \<and> (map_of tbl cid = Some [] \<longrightarrow> map_of tbl' cid = Some [])
       \<and> (cid \<in> conv_id ` set cs \<longrightarrow> map_of tbl cid = None \<or> map_of tbl cid = Some [] \<longrightarrow>
            map_of tbl' cid = Some [])"
  using assms
proof (induction cs arbitrary: tbl)
  case Nil
  then show ?case by simp
next
  case (Cons c cs)
  from Cons.prems(1) obtain t1 where
    t1: "process_conversion ss tbl c = Inr t1" and rest: "process_conversions ss cs t1 = Inr tbl'"
    by (auto split: sum.splits)
  have h: "conv_id c = cid \<longrightarrow> eligible_sessions ss (conv_timestamp c) = []"
    using Cons.prems(2) by simp
  have hs: "\<forall>c \<in> set cs. conv_id c = cid \<longrightarrow> eligible_sessions ss (conv_timestamp c) = []"
    using Cons.prems(2) by simp
  note a = process_conversion_empty_entry [OF t1 h]
  note b = Cons.IH [OF rest hs]
  show ?case using a b by auto
qed

lemma process_users_empty_entry:
  assumes "process_users p tbl = Inr tbl'"
    and "\<forall>(u, j) \<in> set p. \<forall>c \<in> set (conversions j).
           conv_id c = cid \<longrightarrow> eligible_sessions (sessions j) (conv_timestamp c) = []"
  shows "(map_of tbl cid = None \<or> map_of tbl cid = Some [] \<longrightarrow>
            map_of tbl' cid = None \<or> map_of tbl' cid = Some [])
       \<and> (map_of tbl cid = Some [] \<longrightarrow> map_of tbl' cid = Some [])
       \<and> ((\<exists>(u, j) \<in> set p. sessions j \<noteq> [] \<and> cid \<in> conv_id ` set (conversions j)) \<longrightarrow>
            map_of tbl cid = None \<or> map_of tbl cid = Some [] \<longrightarrow> map_of tbl' cid = Some [])"
  using assms
proof (induction p arbitrary: tbl)
  case Nil
  then show ?case by simp
next
  case (Cons uj p)
  obtain u j where uj: "uj = (u, j)" by (cases uj)
  from Cons.prems(1) uj obtain t1 where
    t1: "process_user j tbl = Inr t1" and rest: "process_users p t1 = Inr tbl'"
    by (auto split: sum.splits)
  have hs: "\<forall>(u, j) \<in> set p. \<forall>c \<in> set (conversions j).
           conv_id c = cid \<longrightarrow> eligible_sessions (sessions j) (conv_timestamp c) = []"
    using Cons.prems(2) by simp
  have hj: "\<forall>c \<in> set (conversions j).
           conv_id c = cid \<longrightarrow> eligible_sessions (sessions j) (conv_timestamp c) = []"
    using Cons.prems(2) uj by simp
  have a: "(map_of tbl cid = None \<or> map_of tbl cid = Some [] \<longrightarrow>
            map_of t1 cid = None \<or> map_of t1 cid = Some [])
       \<and> (map_of tbl cid = Some [] \<longrightarrow> map_of t1 cid = Some [])
       \<and> (sessions j \<noteq> [] \<and> cid \<in> conv_id ` set (conversions j) \<longrightarrow>
             map_of tbl cid = None \<or> map_of tbl cid = Some [] \<longrightarrow> map_of t1 cid = Some [])"
  proof (cases "sessions j = [] \<or> conversions j = []")
    case True
    with t1 have "t1 = tbl" by (simp add: process_user_def)
    with True show ?thesis by auto
  next
    case False
    with t1 have "process_conversions (sessions j) (conversions j) tbl = Inr t1"
      by (simp add: process_user_def)
    from process_conversions_empty_entry [OF this hj] show ?thesis by blast
  qed
  note b = Cons.IH [OF rest hs]
  show ?case using a b uj by auto
qed

lemma process_conversion_distinct:
  "process_conversion ss tbl c = Inr tbl' \<Longrightarrow> distinct (map fst tbl) \<Longrightarrow> distinct (map fst tbl')"
  by (auto simp: process_conversion_def Let_def distinct_update
      split: if_splits option.splits sum.splits)

lemma process_conversions_distinct:
  "process_conversions ss cs tbl = Inr tbl' \<Longrightarrow> distinct (map fst tbl) \<Longrightarrow> distinct (map fst tbl')"
  by (induction cs arbitrary: tbl) (auto split: sum.splits dest: process_conversion_distinct)

lemma process_users_distinct:
  "process_users p tbl = Inr tbl' \<Longrightarrow> distinct (map fst tbl) \<Longrightarrow> distinct (map fst tbl')"
proof (induction p arbitrary: tbl)
  case Nil
  then show ?case by simp
next
  case (Cons uj p)
  obtain u j where uj: "uj = (u, j)" by (cases uj)
  from Cons.prems(1) uj obtain t1 where
    t1: "process_user j tbl = Inr t1" and rest: "process_users p t1 = Inr tbl'"
    by (auto split: sum.splits)
  have "distinct (map fst t1)"
    using t1 Cons.prems(2) process_conversions_distinct
    by (auto simp: process_user_def split: if_splits)
  with Cons.IH [OF rest] show ?case .
qed

lemma call_ihc_api_test_distinct:
  "call_ihc_api_test p = Inr tbl \<Longrightarrow> distinct (map fst tbl)"
  unfolding call_ihc_api_test_def using process_users_distinct [of p "[]" tbl] by simp

lemma session_rows_fst: "r \<in> set (session_rows cid d) \<Longrightarrow> fst r = cid"
  by (induction cid d rule: session_rows.induct) auto

lemma rows_of_key:
  "distinct (map fst tbl) \<Longrightarrow> map_of tbl cid = Some d \<Longrightarrow>
   filter (\<lambda>r. fst r = cid) (attribution_rows tbl) = session_rows cid d"
proof (induction tbl)
  case Nil
  then show ?case by simp
next
  case (Cons p tbl)
  obtain k e where p: "p = (k, e)" by (cases p)
  have none: "filter (\<lambda>r. fst r = cid) (attribution_rows t) = []" if "cid \<notin> fst ` set t" for t
    using that
  proof (induction t)
    case Nil
    then show ?case by simp
  next
    case (Cons q t)
    obtain k' e' where q: "q = (k', e')" by (cases q)
    with Cons.prems have "k' \<noteq> cid" by auto
    then have "filter (\<lambda>r. fst r = cid) (session_rows k' e') = []"
      by (auto simp: filter_empty_conv dest: session_rows_fst)
    with Cons q show ?case by simp
  qed
  show ?case
  proof (cases "k = cid")
    case True
    with Cons.prems p have "cid \<notin> fst ` set tbl" and "e = d" by auto
    moreover have "filter (\<lambda>r. fst r = cid) (session_rows cid d) = session_rows cid d"
      by (auto simp: filter_id_conv dest: session_rows_fst)
    ultimately show ?thesis using none [of tbl] p True by simp
  next
    case False
    then have "filter (\<lambda>r. fst r = cid) (session_rows k e) = []"
      by (auto simp: filter_empty_conv dest: session_rows_fst)
    with Cons p False show ?thesis by simp
  qed
qed

text \<open>
  C6, as stated, at a conversion placed at the instant of the first session: no session is
  eligible, yet the returned table has the key \<open>c0\<close>, mapped to the empty mapping.
\<close>

theorem no_eligible_sessions_counterexample:
  "eligible_sessions example_sessions 32400 = []
   \<and> call_ihc_api_test early_payload = Inr [(''c0'', [])]
   \<and> map_of [(''c0'', ([] :: weights))] ''c0'' = Some []
   \<and> ''c0'' \<in> fst ` set [(''c0'', ([] :: weights))]"
  by (simp add: early_payload_def example_sessions_def call_ihc_api_test_def process_user_def
      process_conversion_def)

text \<open>
  C6, amended. A conversion without an eligible session contributes no session weight, but
  its \<open>conv_id\<close> is a key of the returned table: the engine creates the empty mapping for
  the \<open>conv_id\<close> before it filters the sessions, and leaves an entry that already exists as
  it is. When no conversion of that \<open>conv_id\<close> has an eligible session, the returned table
  maps the \<open>conv_id\<close> to the empty mapping, which yields no row when the table is saved.
\<close>

theorem no_eligible_sessions_empty_entry:
  assumes "call_ihc_api_test journey_payload = Inr tbl"
    and "(u, j) \<in> set journey_payload" and "sessions j \<noteq> []" and "c \<in> set (conversions j)"
    and "\<forall>(u', j') \<in> set journey_payload. \<forall>c' \<in> set (conversions j').
           conv_id c' = conv_id c \<longrightarrow> eligible_sessions (sessions j') (conv_timestamp c') = []"
  shows "map_of tbl (conv_id c) = Some []
       \<and> conv_id c \<in> fst ` set tbl
       \<and> filter (\<lambda>r. fst r = conv_id c) (attribution_rows tbl) = []
       \<and> (eligible_sessions sess0 (conv_timestamp c0) = [] \<longrightarrow>
            process_conversion sess0 tbl0 c0 =
              Inr (if map_of tbl0 (conv_id c0) = None then AList.update (conv_id c0) [] tbl0
                   else tbl0))"
proof -
  have ex: "\<exists>(u, j) \<in> set journey_payload. sessions j \<noteq> [] \<and> conv_id c \<in> conv_id ` set (conversions j)"
    using assms(2,3,4) by blast
  from process_users_empty_entry [of journey_payload "[]" tbl "conv_id c"] assms(1,5) ex
  have m: "map_of tbl (conv_id c) = Some []" by (simp add: call_ihc_api_test_def)
  then have k: "conv_id c \<in> fst ` set tbl" by (force dest: map_of_SomeD)
  have r: "filter (\<lambda>r. fst r = conv_id c) (attribution_rows tbl) = []"
    using rows_of_key [OF call_ihc_api_test_distinct [OF assms(1)] m] by simp
  show ?thesis using m k r process_conversion_no_eligible by blast
qed

theorem no_eligible_sessions_empty_entry_witness:
  "call_ihc_api_test early_payload = Inr [(''c0'', [])]
   \<and> (''u1'', \<lparr>sessions = example_sessions,
               conversions = [\<lparr>conv_id = ''c0'', conv_timestamp = 32400, revenue = 50\<rparr>]\<rparr>)
       \<in> set early_payload
   \<and> example_sessions \<noteq> []
   \<and> eligible_sessions example_sessions 32400 = []
   \<and> map_of [(''c0'', ([] :: weights))] ''c0'' = Some []
   \<and> filter (\<lambda>r. fst r = ''c0'') (attribution_rows [(''c0'', [])]) = []
   \<and> process_conversion example_sessions [(''c0'', [(''s9'', 1)])]
         \<lparr>conv_id = ''c0'', conv_timestamp = 32400, revenue = 50\<rparr>
       = Inr [(''c0'', [(''s9'', 1)])]"
proof -
  let ?c = "\<lparr>conv_id = ''c0'', conv_timestamp = 32400, revenue = 50\<rparr>"
  let ?j = "\<lparr>sessions = example_sessions, conversions = [?c]\<rparr>"
  have h1: "call_ihc_api_test early_payload = Inr [(''c0'', [])]"
    by (simp add: early_payload_def example_sessions_def call_ihc_api_test_def process_user_def
        process_conversion_def)
  have h2: "(''u1'', ?j) \<in> set early_payload" by (simp add: early_payload_def)
  have h3: "sessions ?j \<noteq> []" by (simp add: example_sessions_def)
  have h4: "?c \<in> set (conversions ?j)" by simp
  have e: "eligible_sessions example_sessions 32400 = []" by (simp add: example_sessions_def)
  have e': "eligible_sessions example_sessions (conv_timestamp ?c) = []" using e by simp
  have h5: "\<forall>(u', j') \<in> set early_payload. \<forall>c' \<in> set (conversions j').
           conv_id c' = conv_id ?c \<longrightarrow> eligible_sessions (sessions j') (conv_timestamp c') = []"
    using e by (simp add: early_payload_def)
  note t = no_eligible_sessions_empty_entry [OF h1 h2 h3 h4 h5,
      of example_sessions ?c "[(''c0'', [(''s9'', 1)])]"]
  from t e' have s: "process_conversion example_sessions [(''c0'', [(''s9'', 1)])] ?c
       = Inr [(''c0'', [(''s9'', 1)])]" by simp
  from t h1 h2 h3 e s show ?thesis by simp
qed

subsection \<open>Temporal eligibility in both paths\<close>

lemma flatten_sessions_map:
  "flatten_sessions sess c = map (flattened_journey c) (eligible_sessions sess (conv_timestamp c))"
  by (induction sess) auto







subsection \<open>Grouping\<close>

lemma remdups_drop_later:
  "x \<in> set bs \<Longrightarrow> remdups (as @ x # bs) = remdups (as @ bs)"
  by (induction as) auto

lemma first_seen_append_known:
  "x \<in> set xs \<Longrightarrow> rev (remdups (rev (xs @ x # ys))) = rev (remdups (rev (xs @ ys)))"
  using remdups_drop_later [of x "rev xs" "rev ys"] by simp

lemma keys_update:
  "map fst (AList.update k v d) = (if k \<in> fst ` set d then map fst d else map fst d @ [k])"
  by (induction d) auto

lemma group_by_conversion_keys:
  "map fst (group_by_conversion js d)
     = rev (remdups (rev (map fst d @ map fj_conversion_id js)))" if "distinct (map fst d)"
  using that
proof (induction js arbitrary: d)
  case Nil
  then show ?case by (simp add: distinct_remdups_id)
next
  case (Cons j js)
  let ?k = "fj_conversion_id j"
  let ?d1 = "if map_of d ?k = None then AList.update ?k [] d else d"
  let ?v = "journeys_for ?d1 ?k @ [j]"
  let ?d2 = "AList.update ?k ?v ?d1"
  have d2: "distinct (map fst ?d2)" using Cons.prems by (simp add: distinct_update)
  have keys: "map fst ?d2 = (if ?k \<in> fst ` set d then map fst d else map fst d @ [?k])"
  proof (cases "map_of d ?k = None")
    case True
    then have "?k \<notin> fst ` set d" by (simp add: map_of_eq_None_iff)
    moreover have "?d2 = AList.update ?k ?v d" using True by simp
    ultimately show ?thesis by (simp only: keys_update if_False)
  next
    case False
    then have "?k \<in> fst ` set d" by (simp add: map_of_eq_None_iff)
    moreover have "?d2 = AList.update ?k ?v d" using False by simp
    ultimately show ?thesis by (simp only: keys_update if_True)
  qed
  have "map fst (group_by_conversion (j # js) d) = map fst (group_by_conversion js ?d2)"
    by (simp add: Let_def)
  also have "\<dots> = rev (remdups (rev (map fst ?d2 @ map fj_conversion_id js)))"
    using Cons.IH [OF d2] .
  also have "\<dots> = rev (remdups (rev (map fst d @ map fj_conversion_id (j # js))))"
  proof (cases "?k \<in> fst ` set d")
    case True
    then have "?k \<in> set (map fst d)" by simp
    from first_seen_append_known [OF this, of "map fj_conversion_id js"] keys True
    show ?thesis by simp
  next
    case False
    with keys show ?thesis by simp
  qed
  finally show ?case .
qed

lemma group_by_conversion_distinct:
  "distinct (map fst d) \<Longrightarrow> distinct (map fst (group_by_conversion js d))"
  by (simp add: group_by_conversion_keys)

lemma group_by_conversion_entry:
  "journeys_for (group_by_conversion js d) cid
     = journeys_for d cid @ filter (\<lambda>j. fj_conversion_id j = cid) js"
proof (induction js arbitrary: d)
  case Nil
  then show ?case by simp
next
  case (Cons j js)
  let ?k = "fj_conversion_id j"
  let ?d1 = "if map_of d ?k = None then AList.update ?k [] d else d"
  let ?v = "journeys_for ?d1 ?k @ [j]"
  let ?d2 = "AList.update ?k ?v ?d1"
  have e: "journeys_for ?d2 cid = (if ?k = cid then journeys_for d cid @ [j] else journeys_for d cid)"
    by (auto simp: journeys_for_def update_conv' split: option.splits)
  have "journeys_for (group_by_conversion (j # js) d) cid = journeys_for (group_by_conversion js ?d2) cid"
    by (simp add: Let_def)
  also have "\<dots> = journeys_for ?d2 cid @ filter (\<lambda>j. fj_conversion_id j = cid) js"
    using Cons.IH .
  finally show ?case using e by simp
qed

lemma batch_journeys_concat:
  "batch_journeys d ids = concat (map (journeys_for d) ids)"
  by (induction ids) (auto simp: journeys_for_def)

subsection \<open>Batches\<close>

lemma batch_starts_concat:
  "0 < bs \<Longrightarrow> concat (map (\<lambda>i. take bs (drop i xs)) (batch_starts i (length xs) bs)) = drop i xs"
proof (induction i "length xs" bs rule: batch_starts.induct)
  case (1 i bs)
  show ?case
  proof (cases "length xs \<le> i")
    case True
    then show ?thesis by (simp add: batch_starts.simps)
  next
    case False
    with 1 have "concat (map (\<lambda>i. take bs (drop i xs)) (batch_starts (i + bs) (length xs) bs))
        = drop (i + bs) xs" by simp
    moreover have "batch_starts i (length xs) bs = i # batch_starts (i + bs) (length xs) bs"
      using False 1(2) by (subst batch_starts.simps) simp
    moreover have "take bs (drop i xs) @ drop (i + bs) xs = drop i xs"
      by (metis add.commute append_take_drop_id drop_drop)
    ultimately show ?thesis by simp
  qed
qed

lemma batch_starts_bounds:
  "0 < bs \<Longrightarrow> s \<in> set (batch_starts i n bs) \<Longrightarrow> i \<le> s \<and> s < n"
proof (induction i n bs rule: batch_starts.induct)
  case (1 i n bs)
  show ?case
  proof (cases "n \<le> i")
    case True
    with 1(3) show ?thesis by (simp add: batch_starts.simps)
  next
    case False
    with 1(3) 1(2) have "s = i \<or> s \<in> set (batch_starts (i + bs) n bs)"
      by (subst (asm) batch_starts.simps) (simp split: if_splits)
    then show ?thesis
    proof
      assume "s = i" with False show ?thesis by simp
    next
      assume "s \<in> set (batch_starts (i + bs) n bs)"
      with 1(1) [OF _ 1(2)] False 1(2) show ?thesis by fastforce
    qed
  qed
qed

lemma batch_starts_250: "batch_starts 0 250 100 = [0, 100, 200]"
  by (simp add: batch_starts.simps)

lemma batch_starts_nth:
  "0 < bs \<Longrightarrow> k < length (batch_starts i n bs) \<Longrightarrow> batch_starts i n bs ! k = i + k * bs"
proof (induction i n bs arbitrary: k rule: batch_starts.induct)
  case (1 i n bs)
  show ?case
  proof (cases "n \<le> i")
    case True
    with 1(3) show ?thesis by (simp add: batch_starts.simps)
  next
    case False
    then have eq: "batch_starts i n bs = i # batch_starts (i + bs) n bs"
      using 1(2) by (subst batch_starts.simps) simp
    show ?thesis
    proof (cases k)
      case 0
      with eq show ?thesis by simp
    next
      case (Suc k')
      with 1(3) eq have "k' < length (batch_starts (i + bs) n bs)" by simp
      with 1(1) [OF _ 1(2)] False 1(2) have "batch_starts (i + bs) n bs ! k' = i + bs + k' * bs"
        by simp
      with eq Suc show ?thesis by simp
    qed
  qed
qed

lemma id_batch_sizes:
  assumes "0 < bs" and "k < length (batch_starts 0 (length xs) bs)"
  shows "take bs (drop (batch_starts 0 (length xs) bs ! k) xs) \<noteq> []"
    and "length (take bs (drop (batch_starts 0 (length xs) bs ! k) xs)) \<le> bs"
    and "Suc k < length (batch_starts 0 (length xs) bs) \<Longrightarrow>
          length (take bs (drop (batch_starts 0 (length xs) bs ! k) xs)) = bs"
proof -
  define st where "st = batch_starts 0 (length xs) bs"
  have k: "k < length st" using assms(2) by (simp add: st_def)
  have nth: "st ! k = k * bs" using batch_starts_nth [OF assms] by (simp add: st_def)
  have "st ! k \<in> set st" using k by simp
  then have "st ! k < length xs" using batch_starts_bounds [OF assms(1)] unfolding st_def by blast
  then have lt: "k * bs < length xs" using nth by simp
  show "take bs (drop (batch_starts 0 (length xs) bs ! k) xs) \<noteq> []"
    unfolding st_def [symmetric] nth using lt assms(1) by simp
  show "length (take bs (drop (batch_starts 0 (length xs) bs ! k) xs)) \<le> bs" by simp
  assume "Suc k < length (batch_starts 0 (length xs) bs)"
  then have s: "Suc k < length st" by (simp add: st_def)
  have "st ! Suc k = Suc k * bs"
    using batch_starts_nth [OF assms(1), of "Suc k" 0 "length xs"] s by (simp add: st_def)
  moreover have "st ! Suc k \<in> set st" using s by simp
  then have "st ! Suc k < length xs"
    using batch_starts_bounds [OF assms(1)] unfolding st_def by blast
  ultimately have "k * bs + bs \<le> length xs" by simp
  then show "length (take bs (drop (batch_starts 0 (length xs) bs ! k) xs)) = bs"
    unfolding st_def [symmetric] nth by simp
qed

lemma distinct_concat_unique:
  "distinct (concat xss) \<Longrightarrow> a < length xss \<Longrightarrow> b < length xss \<Longrightarrow>
   x \<in> set (xss ! a) \<Longrightarrow> x \<in> set (xss ! b) \<Longrightarrow> a = b"
proof (induction xss arbitrary: a b)
  case Nil
  then show ?case by simp
next
  case (Cons xs xss)
  show ?case
  proof (cases a)
    case a0: 0
    show ?thesis
    proof (cases b)
      case 0
      with a0 show ?thesis by simp
    next
      case (Suc b')
      with Cons.prems a0 have "x \<in> set xs" and "x \<in> set (concat xss)"
        by (auto intro: nth_mem)
      with Cons.prems(1) show ?thesis by auto
    qed
  next
    case aS: (Suc a')
    show ?thesis
    proof (cases b)
      case 0
      with Cons.prems aS have "x \<in> set xs" and "x \<in> set (concat xss)"
        by (auto intro: nth_mem)
      with Cons.prems(1) show ?thesis by auto
    next
      case (Suc b')
      with Cons.prems aS have "a' = b'" by (intro Cons.IH) auto
      with aS Suc show ?thesis by simp
    qed
  qed
qed

lemma remdups_append_filter:
  "remdups (xs @ ys) = filter (\<lambda>x. x \<notin> set ys) (remdups xs) @ remdups ys"
  by (induction xs) auto

lemma remdups_blocks:
  "remdups (rev (concat (map (\<lambda>(c, n). replicate (Suc n) c) blocks)))
     = remdups (rev (map fst blocks))"
proof (induction blocks)
  case Nil
  then show ?case by simp
next
  case (Cons b blocks)
  obtain c n where b: "b = (c, n)" by (cases b)
  let ?A = "rev (concat (map (\<lambda>(c, n). replicate (Suc n) c) blocks))"
  let ?B = "rev (map fst blocks)"
  have r: "remdups (replicate (Suc m) c) = [c]" for m
    by (induction m) auto
  have s: "set (replicate (Suc n) c) = {c}" by (simp only: set_replicate_Suc)
  have "remdups (?A @ replicate (Suc n) c) = filter (\<lambda>x. x \<notin> {c}) (remdups ?A) @ [c]"
    unfolding remdups_append_filter [of ?A] r s ..
  also have "\<dots> = filter (\<lambda>x. x \<notin> {c}) (remdups ?B) @ [c]"
    using Cons.IH by (simp only:)
  also have "\<dots> = remdups (?B @ [c])"
    unfolding remdups_append_filter [of ?B] by simp
  finally have "remdups (?A @ replicate (Suc n) c) = remdups (?B @ [c])" .
  moreover have "rev (concat (map (\<lambda>(c, n). replicate (Suc n) c) (b # blocks)))
      = ?A @ replicate (Suc n) c" using b by (simp del: replicate.simps)
  moreover have "rev (map fst (b # blocks)) = ?B @ [c]" using b by simp
  ultimately show ?case by (simp only:)
qed

lemma flatten_conversions_ids:
  "map fj_conversion_id (flatten_conversions sess cs)
     = concat (map (\<lambda>(c, n). replicate (Suc n) c) (blocks_of sess cs))"
proof (induction cs)
  case Nil
  then show ?case by (simp add: blocks_of_def)
next
  case (Cons c cs)
  have "map fj_conversion_id (flatten_sessions sess c)
      = replicate (length (eligible_sessions sess (conv_timestamp c))) (conv_id c)"
    by (simp add: flatten_sessions_map flattened_journey_def o_def map_replicate_const)
  moreover have "fj_conversion_id (conversion_session c) = conv_id c"
    by (simp add: conversion_session_def)
  moreover have "replicate m x @ [x] = replicate (Suc m) x" for m and x :: string
    by (simp add: replicate_append_same)
  ultimately show ?case using Cons by (simp add: blocks_of_def)
qed

lemma flatten_users_ids:
  "map fj_conversion_id (flatten_users p)
     = concat (map (\<lambda>(c, n). replicate (Suc n) c) (payload_blocks p))"
  by (induction p rule: payload_blocks.induct) (auto simp: flatten_conversions_ids)

lemma payload_blocks_ids: "map fst (payload_blocks p) = payload_conv_ids p"
  by (induction p rule: payload_blocks.induct) (auto simp: blocks_of_def o_def)

lemma conversion_ids_first_seen:
  "conversion_ids p = rev (remdups (rev (payload_conv_ids p)))"
proof -
  have "conversion_ids p = rev (remdups (rev (map fj_conversion_id (flatten_users p))))"
    using group_by_conversion_keys [of "[]" "flatten_users p"]
    by (simp add: conversion_ids_def journeys_by_conversion_def)
  also have "\<dots> = rev (remdups (rev (map fst (payload_blocks p))))"
    unfolding flatten_users_ids remdups_blocks ..
  finally show ?thesis by (simp only: payload_blocks_ids)
qed

subsection \<open>Batches of conversions\<close>

lemma id_batches_concat:
  "0 < bs \<Longrightarrow> concat (id_batches p bs) = conversion_ids p"
  using batch_starts_concat [of bs "conversion_ids p" 0]
  by (simp add: id_batches_def batch_conversion_ids_def [abs_def])

lemma conversion_ids_distinct: "distinct (conversion_ids p)"
  by (simp add: conversion_ids_first_seen)

lemma id_batches_nth:
  "k < length (id_batches p bs) \<Longrightarrow>
   id_batches p bs ! k
     = take bs (drop (batch_starts 0 (length (conversion_ids p)) bs ! k) (conversion_ids p))"
  by (simp add: id_batches_def batch_conversion_ids_def)

lemma id_batches_sizes:
  assumes "0 < bs" and "k < length (id_batches p bs)"
  shows "id_batches p bs ! k \<noteq> [] \<and> length (id_batches p bs ! k) \<le> bs
       \<and> (Suc k < length (id_batches p bs) \<longrightarrow> length (id_batches p bs ! k) = bs)"
proof -
  have k: "k < length (batch_starts 0 (length (conversion_ids p)) bs)"
    using assms(2) by (simp add: id_batches_def)
  have len: "length (id_batches p bs) = length (batch_starts 0 (length (conversion_ids p)) bs)"
    by (simp add: id_batches_def)
  show ?thesis
    unfolding id_batches_nth [OF assms(2)] len
    using id_batch_sizes [OF assms(1) k] by blast
qed

lemma id_batches_250:
  assumes "length (conversion_ids p) = 250"
  shows "map length (id_batches p 100) = [100, 100, 50]"
  using assms by (simp add: id_batches_def batch_starts_250 batch_conversion_ids_def)

lemma id_batches_unique:
  assumes "0 < bs" and "cid \<in> set (conversion_ids p)"
  shows "\<exists>!k. k < length (id_batches p bs) \<and> cid \<in> set (id_batches p bs ! k)"
proof -
  have "cid \<in> set (concat (id_batches p bs))" using assms by (simp add: id_batches_concat)
  then obtain b where "b \<in> set (id_batches p bs)" "cid \<in> set b" by auto
  then obtain k where k: "k < length (id_batches p bs)" "cid \<in> set (id_batches p bs ! k)"
    by (auto simp: in_set_conv_nth)
  have d: "distinct (concat (id_batches p bs))"
    using assms(1) by (simp add: id_batches_concat conversion_ids_distinct)
  show ?thesis
  proof (rule ex1I [of _ k])
    show "k < length (id_batches p bs) \<and> cid \<in> set (id_batches p bs ! k)" using k by simp
  next
    fix k' assume "k' < length (id_batches p bs) \<and> cid \<in> set (id_batches p bs ! k')"
    with distinct_concat_unique [OF d _ _ _ k(2), of k'] k(1) show "k' = k" by blast
  qed
qed

lemma journeys_for_grouped:
  "journeys_for (journeys_by_conversion p) cid
     = filter (\<lambda>j. fj_conversion_id j = cid) (flatten_users p)"
proof -
  have "journeys_for [] cid = []" by (simp add: journeys_for_def)
  then show ?thesis
    unfolding journeys_by_conversion_def group_by_conversion_entry by simp
qed

lemma filter_journeys_of_batch:
  assumes "distinct ids"
  shows "filter (\<lambda>j. fj_conversion_id j = cid) (batch_journeys (journeys_by_conversion p) ids)
       = (if cid \<in> set ids then filter (\<lambda>j. fj_conversion_id j = cid) (flatten_users p) else [])"
  using assms
proof (induction ids)
  case Nil
  then show ?case by simp
next
  case (Cons c ids)
  have f: "filter (\<lambda>j. fj_conversion_id j = cid) (journeys_for (journeys_by_conversion p) c)
        = (if c = cid then filter (\<lambda>j. fj_conversion_id j = cid) (flatten_users p) else [])"
    unfolding journeys_for_grouped by (induction "flatten_users p") auto
  from Cons have IH: "filter (\<lambda>j. fj_conversion_id j = cid) (batch_journeys (journeys_by_conversion p) ids)
       = (if cid \<in> set ids then filter (\<lambda>j. fj_conversion_id j = cid) (flatten_users p) else [])"
    by simp
  from Cons.prems have "c \<notin> set ids" by simp
  then show ?case using f IH by auto
qed

lemma batch_requests_nth:
  "k < length (id_batches p bs) \<Longrightarrow>
   batch_requests p bs ! k = batch_journeys (journeys_by_conversion p) (id_batches p bs ! k)"
  by (simp add: batch_requests_def)

lemma id_batch_distinct:
  assumes "0 < bs" and "k < length (id_batches p bs)"
  shows "distinct (id_batches p bs ! k)"
  unfolding id_batches_nth [OF assms(2)] using conversion_ids_distinct [of p] by simp


lemma posted_append: "posted (xs @ ys) = posted xs @ posted ys"
  by (induction xs rule: posted.induct) auto

lemma handle_results_posted: "posted (fst (handle_results r c)) = []"
  by (auto simp: handle_results_def split: option.splits)

lemma call_batch_Inl:
  "request_outcome resp = Inl e \<Longrightarrow> call_batch resp c = ([BatchCallError], Inl e)"
  by (simp add: call_batch_def)

lemma call_batch_Inr:
  "request_outcome resp = Inr r \<Longrightarrow>
   call_batch resp c = (fst (handle_results r c), Inr (snd (handle_results r c)))"
  by (simp add: call_batch_def split: prod.splits)

lemma process_batches_ok:
  assumes "\<forall>k js. \<exists>r. request_outcome (post k js) = Inr r"
  shows "\<exists>tr c. process_batches post d ids bs starts k comb trace = (tr, Inr c)
           \<and> posted tr = posted trace
                @ map (\<lambda>i. batch_journeys d (batch_conversion_ids ids bs i)) starts"
proof (induction starts arbitrary: k comb trace)
  case Nil
  then show ?case by simp
next
  case (Cons i starts)
  let ?js = "batch_journeys d (batch_conversion_ids ids bs i)"
  from assms obtain r where r: "request_outcome (post k ?js) = Inr r" by blast
  let ?t = "trace @ [ProcessingBatch (i div bs + 1) (length (batch_conversion_ids ids bs i))
                       (length ?js), Posted ?js] @ fst (handle_results r comb)"
  have step: "process_batches post d ids bs (i # starts) k comb trace
      = process_batches post d ids bs starts (k + 1) (snd (handle_results r comb)) ?t"
    by (simp add: Let_def call_batch_Inr [OF r])
  from Cons.IH [of "k + 1" "snd (handle_results r comb)" ?t] obtain tr c where
    "process_batches post d ids bs starts (k + 1) (snd (handle_results r comb)) ?t = (tr, Inr c)"
    and "posted tr = posted ?t @ map (\<lambda>i. batch_journeys d (batch_conversion_ids ids bs i)) starts"
    by blast
  then show ?case unfolding step by (simp add: posted_append handle_results_posted)
qed

lemma process_batches_failure:
  assumes "\<forall>m < length pre. \<exists>r. request_outcome
              (post (k + m) (batch_journeys d (batch_conversion_ids ids bs (pre ! m)))) = Inr r"
    and "request_outcome
           (post (k + length pre) (batch_journeys d (batch_conversion_ids ids bs i))) = Inl e"
  shows "\<exists>tr. process_batches post d ids bs (pre @ i # rest) k comb trace
                 = (tr @ [BatchCallError], Inl e)
           \<and> posted tr = posted trace
                @ map (\<lambda>i. batch_journeys d (batch_conversion_ids ids bs i)) (pre @ [i])"
  using assms
proof (induction pre arbitrary: k comb trace)
  case Nil
  let ?js = "batch_journeys d (batch_conversion_ids ids bs i)"
  from Nil have "request_outcome (post k ?js) = Inl e" by simp
  from call_batch_Inl [OF this] show ?case by (simp add: Let_def posted_append)
next
  case (Cons j pre)
  let ?js = "batch_journeys d (batch_conversion_ids ids bs j)"
  from Cons.prems(1) [rule_format, of 0] obtain r where
    r: "request_outcome (post k ?js) = Inr r" by auto
  let ?t = "trace @ [ProcessingBatch (j div bs + 1) (length (batch_conversion_ids ids bs j))
                       (length ?js), Posted ?js] @ fst (handle_results r comb)"
  have step: "process_batches post d ids bs ((j # pre) @ i # rest) k comb trace
      = process_batches post d ids bs (pre @ i # rest) (k + 1) (snd (handle_results r comb)) ?t"
    by (simp add: Let_def call_batch_Inr [OF r])
  have a: "\<forall>m < length pre. \<exists>r. request_outcome
              (post (k + 1 + m) (batch_journeys d (batch_conversion_ids ids bs (pre ! m)))) = Inr r"
  proof (intro allI impI)
    fix m assume "m < length pre"
    with Cons.prems(1) [rule_format, of "Suc m"]
    show "\<exists>r. request_outcome
              (post (k + 1 + m) (batch_journeys d (batch_conversion_ids ids bs (pre ! m)))) = Inr r"
      by simp
  qed
  have b: "request_outcome
           (post (k + 1 + length pre) (batch_journeys d (batch_conversion_ids ids bs i))) = Inl e"
    using Cons.prems(2) by simp
  from Cons.IH [OF a b, of "snd (handle_results r comb)" ?t] obtain tr where
    "process_batches post d ids bs (pre @ i # rest) (k + 1) (snd (handle_results r comb)) ?t
       = (tr @ [BatchCallError], Inl e)"
    and "posted tr = posted ?t
           @ map (\<lambda>i. batch_journeys d (batch_conversion_ids ids bs i)) (pre @ [i])"
    by blast
  then show ?case unfolding step by (simp add: posted_append handle_results_posted)
qed

lemma batched_requests_when_no_failure:
  assumes "0 < bs" and "\<forall>k js. \<exists>r. request_outcome (post k js) = Inr r"
  shows "posted (fst (call_ihc_api_batched post p (int bs))) = batch_requests p bs"
proof -
  let ?starts = "batch_starts 0 (length (conversion_ids p)) bs"
  have range: "batch_range (length (conversion_ids p)) (int bs) = Inr ?starts"
    using assms(1) by (simp add: batch_range_def)
  from process_batches_ok [OF assms(2), of "journeys_by_conversion p" "conversion_ids p" bs
      ?starts 0 "[]" "[]"]
  obtain tr c where
    r: "process_batches post (journeys_by_conversion p) (conversion_ids p) bs ?starts 0 [] []
          = (tr, Inr c)"
    and t: "posted tr = map (\<lambda>i. batch_journeys (journeys_by_conversion p)
                                  (batch_conversion_ids (conversion_ids p) bs i)) ?starts"
    by auto
  have "call_ihc_api_batched post p (int bs) = (tr @ [Completed (length c)], Inr c)"
    using range r by (simp add: call_ihc_api_batched_def)
  then have "posted (fst (call_ihc_api_batched post p (int bs))) = posted tr"
    by (simp add: posted_append)
  also have "\<dots> = batch_requests p bs"
    unfolding t by (simp add: batch_requests_def id_batches_def)
  finally show ?thesis .
qed

lemma big_payload_ids:
  "conversion_ids big_payload = map (\<lambda>n. replicate (Suc n) CHR ''c'') [0..<250]"
proof -
  have ids: "payload_conv_ids big_payload = map (\<lambda>n. replicate (Suc n) CHR ''c'') [0..<250]"
    by (simp add: big_payload_def many_conversions_def example_sessions_def o_def)
  have "inj_on (\<lambda>n. replicate (Suc n) CHR ''c'') (set [0..<250])"
  proof (rule inj_onI)
    fix n m :: nat
    assume "replicate (Suc n) CHR ''c'' = replicate (Suc m) CHR ''c''"
    then have "length (replicate (Suc n) CHR ''c'') = length (replicate (Suc m) CHR ''c'')"
      by (rule arg_cong)
    then show "n = m" by simp
  qed
  then have "distinct (map (\<lambda>n. replicate (Suc n) CHR ''c'') [0..<250])"
    by (simp add: distinct_map)
  then have "rev (remdups (rev (payload_conv_ids big_payload))) = payload_conv_ids big_payload"
    unfolding ids by (simp add: distinct_remdups_id)
  then show ?thesis unfolding conversion_ids_first_seen ids .
qed

text \<open>
  C9. With a positive batch size, the orchestrator partitions the distinct conversion ids,
  in the order of their first occurrence during flattening, into consecutive batches of at
  most \<open>batch_size\<close> ids (all but the last of exactly \<open>batch_size\<close>): 250 conversions and
  batch size 100 give three batches of 100, 100 and 50 ids; every conversion id is in
  exactly one batch; and a batch's request holds all the flattened records of each of its
  conversions and none of any other conversion. When no request fails, the requests sent
  are these batches, in order.
\<close>

theorem batches_partition_conversion_ids:
  assumes "0 < batch_size"
  shows "conversion_ids p = rev (remdups (rev (map fj_conversion_id (flatten_users p))))
       \<and> conversion_ids p = rev (remdups (rev (payload_conv_ids p)))
       \<and> distinct (conversion_ids p)
       \<and> concat (id_batches p batch_size) = conversion_ids p
       \<and> (\<forall>k < length (id_batches p batch_size).
            id_batches p batch_size ! k \<noteq> []
            \<and> length (id_batches p batch_size ! k) \<le> batch_size
            \<and> (Suc k < length (id_batches p batch_size) \<longrightarrow>
                 length (id_batches p batch_size ! k) = batch_size))
       \<and> (length (conversion_ids p) = 250 \<and> batch_size = 100 \<longrightarrow>
            map length (id_batches p batch_size) = [100, 100, 50])
       \<and> (\<forall>cid \<in> set (conversion_ids p).
            \<exists>!k. k < length (id_batches p batch_size) \<and> cid \<in> set (id_batches p batch_size ! k))
       \<and> length (batch_requests p batch_size) = length (id_batches p batch_size)
       \<and> (\<forall>k < length (id_batches p batch_size). \<forall>cid.
            filter (\<lambda>j. fj_conversion_id j = cid) (batch_requests p batch_size ! k)
              = (if cid \<in> set (id_batches p batch_size ! k)
                 then filter (\<lambda>j. fj_conversion_id j = cid) (flatten_users p) else []))
       \<and> ((\<forall>k js. \<exists>r. request_outcome (post k js) = Inr r) \<longrightarrow>
            posted (fst (call_ihc_api_batched post p (int batch_size)))
              = batch_requests p batch_size)"
proof (intro conjI)
  show "conversion_ids p = rev (remdups (rev (map fj_conversion_id (flatten_users p))))"
    using group_by_conversion_keys [of "[]" "flatten_users p"]
    by (simp add: conversion_ids_def journeys_by_conversion_def)
  show "conversion_ids p = rev (remdups (rev (payload_conv_ids p)))"
    by (rule conversion_ids_first_seen)
  show "distinct (conversion_ids p)" by (rule conversion_ids_distinct)
  show "concat (id_batches p batch_size) = conversion_ids p"
    using assms by (rule id_batches_concat)
  show "\<forall>k < length (id_batches p batch_size).
            id_batches p batch_size ! k \<noteq> []
            \<and> length (id_batches p batch_size ! k) \<le> batch_size
            \<and> (Suc k < length (id_batches p batch_size) \<longrightarrow>
                 length (id_batches p batch_size ! k) = batch_size)"
    using id_batches_sizes [OF assms] by blast
  show "length (conversion_ids p) = 250 \<and> batch_size = 100 \<longrightarrow>
            map length (id_batches p batch_size) = [100, 100, 50]"
    using id_batches_250 by blast
  show "\<forall>cid \<in> set (conversion_ids p).
            \<exists>!k. k < length (id_batches p batch_size) \<and> cid \<in> set (id_batches p batch_size ! k)"
    using id_batches_unique [OF assms] by blast
  show "length (batch_requests p batch_size) = length (id_batches p batch_size)"
    by (simp add: batch_requests_def)
  show "\<forall>k < length (id_batches p batch_size). \<forall>cid.
            filter (\<lambda>j. fj_conversion_id j = cid) (batch_requests p batch_size ! k)
              = (if cid \<in> set (id_batches p batch_size ! k)
                 then filter (\<lambda>j. fj_conversion_id j = cid) (flatten_users p) else [])"
  proof (intro allI impI)
    fix k cid assume k: "k < length (id_batches p batch_size)"
    show "filter (\<lambda>j. fj_conversion_id j = cid) (batch_requests p batch_size ! k)
              = (if cid \<in> set (id_batches p batch_size ! k)
                 then filter (\<lambda>j. fj_conversion_id j = cid) (flatten_users p) else [])"
      unfolding batch_requests_nth [OF k]
      using id_batch_distinct [OF assms k] by (rule filter_journeys_of_batch)
  qed
  show "(\<forall>k js. \<exists>r. request_outcome (post k js) = Inr r) \<longrightarrow>
            posted (fst (call_ihc_api_batched post p (int batch_size)))
              = batch_requests p batch_size"
    using batched_requests_when_no_failure [OF assms] by blast
qed

theorem batches_partition_conversion_ids_witness:
  "(0::nat) < 100
   \<and> length (conversion_ids big_payload) = 250
   \<and> map length (id_batches big_payload 100) = [100, 100, 50]
   \<and> concat (id_batches big_payload 100) = conversion_ids big_payload
   \<and> distinct (conversion_ids big_payload)
   \<and> length (batch_requests big_payload 100) = 3
   \<and> posted (fst (call_ihc_api_batched ok_service big_payload (int 100)))
       = batch_requests big_payload 100"
proof -
  have h1: "(0::nat) < 100" by simp
  have h2: "length (conversion_ids big_payload) = 250" by (simp add: big_payload_ids)
  have h3: "\<forall>k js. \<exists>r. request_outcome (ok_service k js) = Inr r"
    by (simp add: ok_service_def request_outcome_def)
  note t = batches_partition_conversion_ids [OF h1, of big_payload ok_service]
  from t h2 have a: "map length (id_batches big_payload 100) = [100, 100, 50]" by blast
  then have "length (map length (id_batches big_payload 100)) = 3" by simp
  then have n: "length (id_batches big_payload 100) = 3" by simp
  from t have b: "length (batch_requests big_payload 100) = length (id_batches big_payload 100)"
    by blast
  from t h3 have c: "posted (fst (call_ihc_api_batched ok_service big_payload (int 100)))
       = batch_requests big_payload 100" by blast
  from t have d: "concat (id_batches big_payload 100) = conversion_ids big_payload"
    and e: "distinct (conversion_ids big_payload)" by blast+
  from h1 h2 a b c d e n show ?thesis by simp
qed

subsection \<open>Failing requests\<close>

lemma batched_failure:
  assumes "0 < max_journeys"
    and "k < length (batch_requests p (nat max_journeys))"
    and "\<forall>m<k. \<exists>r. request_outcome (post m (batch_requests p (nat max_journeys) ! m)) = Inr r"
    and "request_outcome (post k (batch_requests p (nat max_journeys) ! k)) = Inl e"
  shows "\<exists>tr. call_ihc_api_batched post p max_journeys = (tr @ [BatchCallError], Inl e)
           \<and> posted tr = take (Suc k) (batch_requests p (nat max_journeys))"
proof -
  define bs where "bs = nat max_journeys"
  define starts where "starts = batch_starts 0 (length (conversion_ids p)) bs"
  define req where "req = (\<lambda>i. batch_journeys (journeys_by_conversion p)
                                  (batch_conversion_ids (conversion_ids p) bs i))"
  have reqs: "batch_requests p bs = map req starts"
    by (simp add: batch_requests_def id_batches_def req_def starts_def)
  have k: "k < length starts" using assms(2) by (simp add: reqs bs_def [symmetric])
  have split: "starts = take k starts @ starts ! k # drop (Suc k) starts"
    using k by (simp add: id_take_nth_drop)
  have range: "batch_range (length (conversion_ids p)) max_journeys = Inr starts"
    using assms(1) by (simp add: batch_range_def starts_def bs_def)
  have a: "\<forall>m < length (take k starts). \<exists>r. request_outcome
              (post (0 + m) (batch_journeys (journeys_by_conversion p)
                 (batch_conversion_ids (conversion_ids p) bs (take k starts ! m)))) = Inr r"
  proof (intro allI impI)
    fix m assume "m < length (take k starts)"
    then have m: "m < k" by simp
    with k have eq: "batch_requests p bs ! m = req (take k starts ! m)" by (simp add: reqs)
    from assms(3) m obtain r where "request_outcome (post m (batch_requests p bs ! m)) = Inr r"
      unfolding bs_def by blast
    then have "request_outcome (post (0 + m) (req (take k starts ! m))) = Inr r"
      unfolding eq by simp
    then show "\<exists>r. request_outcome
              (post (0 + m) (batch_journeys (journeys_by_conversion p)
                 (batch_conversion_ids (conversion_ids p) bs (take k starts ! m)))) = Inr r"
      unfolding req_def by blast
  qed
  have b: "request_outcome (post (0 + length (take k starts))
             (batch_journeys (journeys_by_conversion p)
                (batch_conversion_ids (conversion_ids p) bs (starts ! k)))) = Inl e"
    using assms(4) k by (simp add: reqs bs_def [symmetric] req_def min_absorb2)
  from process_batches_failure [OF a b, of "drop (Suc k) starts" "[]" "[]"] split
  obtain tr where r: "process_batches post (journeys_by_conversion p) (conversion_ids p) bs
          starts 0 [] [] = (tr @ [BatchCallError], Inl e)"
    and t: "posted tr = map req (take k starts @ [starts ! k])"
    by (auto simp: req_def)
  have "call_ihc_api_batched post p max_journeys = (tr @ [BatchCallError], Inl e)"
    using range r by (simp add: call_ihc_api_batched_def bs_def)
  moreover have "posted tr = take (Suc k) (batch_requests p bs)"
    unfolding t reqs using k by (simp add: take_Suc_conv_app_nth take_map)
  ultimately show ?thesis unfolding bs_def by blast
qed

lemma run_pipeline_failure:
  "snd (call_ihc_api_batched post (build_customer_journeys sdf cdf) 100) = Inl e \<Longrightarrow>
   run_pipeline post reporting_ok sdf cdf False db = (False, db)"
  by (simp add: run_pipeline_def)



lemma one_row_payload:
  "build_customer_journeys one_session_df one_conversion_df =
     [(''u1'', \<lparr>sessions = [\<lparr>session_id = ''s1'', timestamp = 32400, channel = ''Email'',
                               holder_engagement = True, closer_engagement = False,
                               impression_interaction = False, cost = 0\<rparr>],
               conversions = [\<lparr>conv_id = ''c1'', conv_timestamp = 43200, revenue = 50\<rparr>]\<rparr>)]"
  by (simp add: build_customer_journeys_def all_users_def one_session_df_def
      one_conversion_df_def session_dict_def conversion_dict_def strftime_def)

lemma one_row_requests:
  "length (batch_requests (build_customer_journeys one_session_df one_conversion_df) (nat 100)) = 1"
  by (simp add: batch_requests_def id_batches_def conversion_ids_first_seen one_row_payload
      batch_starts.simps)

text \<open>
  C4. A transport-level failure of a batch request (connection error, timeout) is fatal:
  the exception is logged and raised again, the requests sent are those up to the failing
  batch and no later one, and in \<open>run_pipeline\<close> the exception of the batched call is caught
  before \<open>save_attribution_results\<close> is reached, so the store is left as it was.
\<close>

theorem transport_failure_is_fatal:
  assumes "0 < max_journeys"
    and "k < length (batch_requests p (nat max_journeys))"
    and "\<forall>m<k. \<exists>r. request_outcome (post m (batch_requests p (nat max_journeys) ! m)) = Inr r"
    and "post k (batch_requests p (nat max_journeys) ! k) = ConnectionFailed
         \<or> post k (batch_requests p (nat max_journeys) ! k) = TimedOut"
  shows "(\<exists>tr e. call_ihc_api_batched post p max_journeys = (tr @ [BatchCallError], Inl e)
            \<and> (e = ConnectionError \<or> e = Timeout)
            \<and> posted tr = take (Suc k) (batch_requests p (nat max_journeys)))
       \<and> (p = build_customer_journeys sessions_df conversions_df \<and> max_journeys = 100 \<longrightarrow>
            run_pipeline post reporting_ok sessions_df conversions_df False db = (False, db))"
proof -
  from assms(4) obtain e where
    e: "request_outcome (post k (batch_requests p (nat max_journeys) ! k)) = Inl e"
    and ee: "e = ConnectionError \<or> e = Timeout"
    by (auto simp: request_outcome_def)
  from batched_failure [where post = post and p = p and k = k, OF assms(1,2,3) e] obtain tr where
    r: "call_ihc_api_batched post p max_journeys = (tr @ [BatchCallError], Inl e)"
    and t: "posted tr = take (Suc k) (batch_requests p (nat max_journeys))" by blast
  have "run_pipeline post reporting_ok sessions_df conversions_df False db = (False, db)"
    if "p = build_customer_journeys sessions_df conversions_df \<and> max_journeys = 100"
    using that r run_pipeline_failure [of post sessions_df conversions_df e reporting_ok db]
    by simp
  with r t ee show ?thesis by blast
qed

theorem transport_failure_is_fatal_witness:
  "(0::int) < 100
   \<and> 0 < length (batch_requests (build_customer_journeys one_session_df one_conversion_df) (nat 100))
   \<and> timeout_service 0
        (batch_requests (build_customer_journeys one_session_df one_conversion_df) (nat 100) ! 0)
       = TimedOut
   \<and> (\<exists>tr e. call_ihc_api_batched timeout_service
                 (build_customer_journeys one_session_df one_conversion_df) 100
               = (tr @ [BatchCallError], Inl e)
            \<and> (e = ConnectionError \<or> e = Timeout)
            \<and> posted tr = take (Suc 0)
                 (batch_requests (build_customer_journeys one_session_df one_conversion_df) (nat 100)))
   \<and> run_pipeline timeout_service True one_session_df one_conversion_df False [(''c0'', ''s0'', 1)]
       = (False, [(''c0'', ''s0'', 1)])"
proof -
  let ?p = "build_customer_journeys one_session_df one_conversion_df"
  have h1: "(0::int) < 100" by simp
  have h2: "0 < length (batch_requests ?p (nat 100))" by (simp only: one_row_requests)
  have h3: "\<forall>m<0. \<exists>r. request_outcome (timeout_service m (batch_requests ?p (nat 100) ! m)) = Inr r"
    by simp
  have h4: "timeout_service 0 (batch_requests ?p (nat 100) ! 0) = TimedOut"
    by (simp add: timeout_service_def)
  have h4': "timeout_service 0 (batch_requests ?p (nat 100) ! 0) = ConnectionFailed
         \<or> timeout_service 0 (batch_requests ?p (nat 100) ! 0) = TimedOut"
    using h4 by simp
  from transport_failure_is_fatal [where post = timeout_service and p = ?p and k = 0
      and sessions_df = one_session_df and conversions_df = one_conversion_df
      and reporting_ok = True and db = "[(''c0'', ''s0'', 1)]", OF h1 h2 h3 h4'] h1 h2 h4
  show ?thesis by blast
qed




subsection \<open>Application-level errors\<close>









subsection \<open>The journey builder\<close>

















text \<open>
  The builder compares the timestamps of the data frames, the journey stores them
  formatted to whole seconds: rows less than a second apart give a journey whose session
  and conversion carry the same timestamp, and the heuristic engine then finds no eligible
  session for the conversion.
\<close>

lemma subsecond_rows_tie:
  "build_customer_journeys subsecond_sessions_df subsecond_conversions_df =
     [(''u1'', \<lparr>sessions = [\<lparr>session_id = ''s1'', timestamp = 32400, channel = ''Email'',
                               holder_engagement = False, closer_engagement = False,
                               impression_interaction = False, cost = 0\<rparr>],
               conversions = [\<lparr>conv_id = ''c1'', conv_timestamp = 32400, revenue = 50\<rparr>]\<rparr>)]
   \<and> call_ihc_api_test (build_customer_journeys subsecond_sessions_df subsecond_conversions_df)
       = Inr [(''c1'', [])]"
  by (simp add: build_customer_journeys_def all_users_def subsecond_sessions_df_def
      subsecond_conversions_df_def session_dict_def conversion_dict_def strftime_def
      call_ihc_api_test_def process_user_def process_conversion_def)



end
